theory Spec2Isabelle
  imports Main "HOL-Library.Word"
begin

section \<open>Data model of the circuit breaker\<close>

text \<open>
  The breaker of package \<open>breaker\<close>: the \<open>CircuitBreaker\<close> struct with its rolling
  window of \<open>Counts\<close> frames, the summary, the three states, the constructor \<open>New\<close>
  with its options, \<open>Execute\<close> with its deferred handlers, the default policies
  \<open>defaultCanTrip\<close> and \<open>defaultFromHalfOpenToState\<close>, and the two kinds of goroutine
  (\<open>renewFrame\<close>, \<open>waitHalfOpen\<close>).

  Go's \<open>uint64\<close> is \<open>64 word\<close>: \<open>+\<close> and \<open>-\<close> wrap around as in Go.
\<close>

type_synonym uint64 = "64 word"

record Counts =
  Total :: uint64
  Fail :: uint64
  Success :: uint64

text \<open>\<open>Counts{}\<close>, the zero value.\<close>

definition Counts_zero :: Counts where
  "Counts_zero = \<lparr>Total = 0, Fail = 0, Success = 0\<rparr>"

text \<open>\<open>type State string\<close> with its three constants. A policy callback may return any
  string; the switches of the code compare against the constants.\<close>

type_synonym State = string

definition Closed :: State where
  "Closed = ''closed''"

definition HalfOpen :: State where
  "HalfOpen = ''half-open''"

definition Open :: State where
  "Open = ''open''"

text \<open>Errors: the two sentinel errors of the package (\<open>ErrNewCircuitBreaker\<close> wrapped with
  the reason by \<open>fmt.Errorf\<close>) and whatever error value the wrapped call returns.\<close>

datatype error = ErrNewCircuitBreaker string | ErrOpenCircuit | CallError string

text \<open>A panic carries the value given to \<open>panic\<close> by the wrapped call, or the run-time
  error of an index or slice bound out of range. The value of the call is not \<open>nil\<close>:
  what \<open>panic(nil)\<close> does to \<open>recover\<close> depends on the Go release, and is left out.\<close>

datatype panic_value = PanicValue string | IndexOutOfRange

section \<open>float64 arithmetic of the default trip policy\<close>

text \<open>
  \<open>defaultCanTrip\<close> converts two \<open>uint64\<close> to \<open>float64\<close>, divides, multiplies by 100 and
  compares with 60. Only non-negative values arise. A finite value \<open>Fin m e\<close> stands for
  \<open>m * 2 ^ e\<close>; \<open>round_float64 n d s\<close> rounds the exact value \<open>n / d * 2 ^ s\<close> to the
  nearest binary64 number, ties to even (53 significant bits, gradual underflow below
  \<open>2 ^ - 1022\<close>, overflow to infinity), as IEEE 754 conversion, division and
  multiplication do.
\<close>

datatype float64 = Fin nat int | PosInf | NaN

fun bit_length :: "nat \<Rightarrow> nat" where
  "bit_length n = (if n = 0 then 0 else Suc (bit_length (n div 2)))"

declare bit_length.simps [simp del]

text \<open>\<open>scale2 n d s\<close> is the fraction \<open>n / d * 2 ^ s\<close> as numerator and denominator.\<close>

definition scale2 :: "nat \<Rightarrow> nat \<Rightarrow> int \<Rightarrow> nat \<times> nat" where
  "scale2 n d s = (if 0 \<le> s then (n * 2 ^ nat s, d) else (n, d * 2 ^ nat (- s)))"

definition floor_log2 :: "nat \<Rightarrow> nat \<Rightarrow> int" where
  "floor_log2 n d =
     (let k = int (bit_length n) - int (bit_length d);
          (n', d') = scale2 n d (- k)
      in if d' \<le> n' then k else k - 1)"

definition round_half_even :: "nat \<Rightarrow> nat \<Rightarrow> nat" where
  "round_half_even n d =
     (let f = n div d; r = n mod d
      in if 2 * r < d then f
         else if d < 2 * r then f + 1
         else if even f then f else f + 1)"

definition round_float64 :: "nat \<Rightarrow> nat \<Rightarrow> int \<Rightarrow> float64" where
  "round_float64 n d s =
     (if n = 0 then Fin 0 0
      else let e = max (floor_log2 n d + s) (- 1022);
               (n', d') = scale2 n d (s + 52 - e);
               m = round_half_even n' d'
           in if 1024 < int (bit_length m) + (e - 52) then PosInf else Fin m (e - 52))"

definition float64_of_uint64 :: "uint64 \<Rightarrow> float64" where
  "float64_of_uint64 w = round_float64 (unat w) 1 0"

fun float64_div :: "float64 \<Rightarrow> float64 \<Rightarrow> float64" where
  "float64_div NaN _ = NaN"
| "float64_div _ NaN = NaN"
| "float64_div PosInf PosInf = NaN"
| "float64_div PosInf (Fin _ _) = PosInf"
| "float64_div (Fin _ _) PosInf = Fin 0 0"
| "float64_div (Fin m1 e1) (Fin m2 e2) =
     (if m2 = 0 then (if m1 = 0 then NaN else PosInf)
      else round_float64 m1 m2 (e1 - e2))"

fun float64_mul :: "float64 \<Rightarrow> float64 \<Rightarrow> float64" where
  "float64_mul NaN _ = NaN"
| "float64_mul _ NaN = NaN"
| "float64_mul PosInf PosInf = PosInf"
| "float64_mul PosInf (Fin m _) = (if m = 0 then NaN else PosInf)"
| "float64_mul (Fin m _) PosInf = (if m = 0 then NaN else PosInf)"
| "float64_mul (Fin m1 e1) (Fin m2 e2) = round_float64 (m1 * m2) 1 (e1 + e2)"

fun float64_ge :: "float64 \<Rightarrow> float64 \<Rightarrow> bool" where
  "float64_ge NaN _ = False"
| "float64_ge _ NaN = False"
| "float64_ge PosInf _ = True"
| "float64_ge (Fin _ _) PosInf = False"
| "float64_ge (Fin m1 e1) (Fin m2 e2) = (let (a, b) = scale2 m1 m2 (e1 - e2) in b \<le> a)"

section \<open>Default policies\<close>

text \<open>The ratio test of \<open>defaultCanTrip\<close> on its own:
  \<open>((float64(summary.Fail)/float64(summary.Total))*100) >= 60\<close>.\<close>

definition failRatioAtLeast60 :: "Counts \<Rightarrow> bool" where
  "failRatioAtLeast60 summary =
     float64_ge
       (float64_mul
          (float64_div (float64_of_uint64 (Fail summary)) (float64_of_uint64 (Total summary)))
          (Fin 100 0))
       (Fin 60 0)"

text \<open>\<open>summary.Total > 10 && ...\<close>: the right operand of \<open>&&\<close> is evaluated only when the
  left one holds.\<close>

definition defaultCanTrip :: "Counts \<Rightarrow> bool" where
  "defaultCanTrip summary =
     (if 10 < Total summary then failRatioAtLeast60 summary else False)"

text \<open>\<open>defaultFromHalfOpenToState\<close>. The quotient \<open>summary.Fail/summary.Total*100\<close> is
  \<open>uint64\<close> arithmetic and is evaluated only when \<open>summary.Total > 100\<close>, so its divisor is
  never zero.\<close>

definition defaultFromHalfOpenToState :: "Counts \<Rightarrow> State" where
  "defaultFromHalfOpenToState summary =
     (if 0 < Fail summary then Open
      else if (if 100 < Total summary
               then Fail summary div Total summary * 100 < 99 else False)
      then Closed
      else HalfOpen)"

section \<open>Options and the constructor\<close>

text \<open>Go's \<open>int\<close> option values are taken as integers. The fields of
  \<open>optionsConfiguration\<close> carry the prefix \<open>opt_\<close> where \<open>configuration\<close> or
  \<open>CircuitBreaker\<close> have a field of the same name.\<close>

record optionsConfiguration =
  opt_windowFrame :: int
  opt_windowRoll :: int
  halfOpenThreshold :: int
  opt_fromHalfOpenToState :: "Counts \<Rightarrow> State"
  opt_canTrip :: "Counts \<Rightarrow> bool"

text \<open>
  An \<open>option\<close> is a closure built by one of the five \<open>With...\<close> functions (the type and
  the configuration struct are unexported, so a caller has no other way to make one). An
  option is the constructor with its argument; \<open>apply_option\<close> is the call of the
  closure, which may return an error (here its message). A callback argument that may
  be \<open>nil\<close> is an \<open>option\<close> value.
\<close>

datatype breaker_option =
    WithWindowFrameThreshold int
  | WithWindowRollThreshold int
  | WithHalfOpenThreshold int
  | WithCanTrip "(Counts \<Rightarrow> bool) option"
  | WithFromHalfOpenToState "(Counts \<Rightarrow> State) option"

fun apply_option :: "breaker_option \<Rightarrow> optionsConfiguration \<Rightarrow> string + optionsConfiguration" where
  "apply_option (WithWindowFrameThreshold seconds) opt =
     (if seconds \<le> 0 then Inl ''frame can't be less than equal zero''
      else Inr (opt\<lparr>opt_windowFrame := seconds\<rparr>))"
| "apply_option (WithWindowRollThreshold seconds) opt =
     (if seconds \<le> 0 then Inl ''window roll can't be less than equal zero''
      else Inr (opt\<lparr>opt_windowRoll := seconds\<rparr>))"
| "apply_option (WithHalfOpenThreshold seconds) opt =
     (if seconds \<le> 0 then Inl ''half open threshold can't be less than equal zero''
      else Inr (opt\<lparr>halfOpenThreshold := seconds\<rparr>))"
| "apply_option (WithCanTrip f) opt =
     (case f of
        None \<Rightarrow> Inl ''can trip callback can't be <nil>''
      | Some g \<Rightarrow> Inr (opt\<lparr>opt_canTrip := g\<rparr>))"
| "apply_option (WithFromHalfOpenToState f) opt =
     (case f of
        None \<Rightarrow> Inl ''half open state change callback can't be <nil>''
      | Some g \<Rightarrow> Inr (opt\<lparr>opt_fromHalfOpenToState := g\<rparr>))"

text \<open>The loop \<open>for _, opt := range opts\<close> of \<open>New\<close>, stopping at the first error.\<close>

fun apply_options :: "breaker_option list \<Rightarrow> optionsConfiguration \<Rightarrow> string + optionsConfiguration" where
  "apply_options [] cbOpts = Inr cbOpts"
| "apply_options (opt # opts) cbOpts =
     (case apply_option opt cbOpts of
        Inl err \<Rightarrow> Inl err
      | Inr cbOpts' \<Rightarrow> apply_options opts cbOpts')"

text \<open>\<open>time.Duration\<close> is a signed 64-bit count of nanoseconds;
  \<open>time.Second * time.Duration(x)\<close> wraps like any Go multiplication.\<close>

type_synonym Duration = "64 word"

definition time_Second :: Duration where
  "time_Second = 1000000000"

record configuration =
  windowRoll :: Duration
  windowFrame :: Duration
  halfOpenTimeout :: Duration

text \<open>
  The struct \<open>CircuitBreaker\<close>; the mutexes are left out, and \<open>state.s\<close>,
  \<open>rollingWindow.window\<close> and \<open>summary.counts\<close> are the fields \<open>state\<close>,
  \<open>rollingWindow\<close> and \<open>summary\<close>. The window is the list of frames, oldest first; the
  capacity of the Go slice is an allocation detail and is not kept.

  The last four fields are not fields of the struct: they say where the goroutines of
  the breaker stand. \<open>renewFrame_at\<close> is the place of the \<open>renewFrame\<close> goroutine: in
  its \<open>select\<close>, after the state check of a turn, after \<open>unshiftFrame\<close> (with the
  frame it returned), after \<open>decrSummary\<close>, or returned. A \<open>waitHalfOpen\<close> goroutine
  is counted in \<open>waitHalfOpen_started\<close> from the \<open>go\<close> statement until it has stored
  \<open>true\<close> in \<open>onHalfOpenTimeout\<close>, in \<open>waitHalfOpen_sleeping\<close> while it waits for
  \<open>time.After\<close> and the state lock, and in \<open>waitHalfOpen_returning\<close> after its
  locked section until the deferred store of \<open>false\<close>.
\<close>

datatype renewFrame_pc =
    AtSelect
  | AfterStateCopy
  | AfterUnshiftFrame Counts
  | AfterDecrSummary
  | Exited

record CircuitBreaker =
  state :: State
  onHalfOpenTimeout :: bool
  canTrip :: "Counts \<Rightarrow> bool"
  fromHalfOpenToState :: "Counts \<Rightarrow> State"
  cfg :: configuration
  rollingWindow :: "Counts list"
  summary :: Counts
  renewFrame_at :: renewFrame_pc
  waitHalfOpen_started :: nat
  waitHalfOpen_sleeping :: nat
  waitHalfOpen_returning :: nat

text \<open>Go's \<open>/\<close> on \<open>int\<close> truncates towards zero.\<close>

definition go_div :: "int \<Rightarrow> int \<Rightarrow> int" where
  "go_div a b = sgn a * sgn b * (\<bar>a\<bar> div \<bar>b\<bar>)"

definition default_options :: optionsConfiguration where
  "default_options =
     \<lparr>opt_windowFrame = 15, opt_windowRoll = 300, halfOpenThreshold = 30,
      opt_fromHalfOpenToState = defaultFromHalfOpenToState,
      opt_canTrip = defaultCanTrip\<rparr>"

text \<open>\<open>New\<close>. Every option that sets a threshold has checked it to be positive, and the
  defaults are positive, so the divisor of \<open>frames\<close> is never zero and \<open>frames\<close> is never
  negative; \<open>make([]Counts, frames, frames + 2)\<close> is a window of \<open>frames\<close> zero frames.
  The \<open>go cb.renewFrame(cancelCh)\<close> statement starts the rotation goroutine.\<close>

definition New :: "breaker_option list \<Rightarrow> error + CircuitBreaker" where
  "New opts =
     (case apply_options opts default_options of
        Inl err \<Rightarrow> Inl (ErrNewCircuitBreaker err)
      | Inr cbOpts \<Rightarrow>
          if opt_windowFrame cbOpts > opt_windowRoll cbOpts
          then Inl (ErrNewCircuitBreaker ''invalid window threshold'')
          else
            let frames = go_div (opt_windowRoll cbOpts) (opt_windowFrame cbOpts)
            in Inr \<lparr>state = Closed,
                    onHalfOpenTimeout = False,
                    canTrip = opt_canTrip cbOpts,
                    fromHalfOpenToState = opt_fromHalfOpenToState cbOpts,
                    cfg = \<lparr>windowRoll = time_Second * word_of_int (opt_windowRoll cbOpts),
                           windowFrame = time_Second * word_of_int (opt_windowFrame cbOpts),
                           halfOpenTimeout = time_Second * word_of_int (halfOpenThreshold cbOpts)\<rparr>,
                    rollingWindow = replicate (nat frames) Counts_zero,
                    summary = Counts_zero,
                    renewFrame_at = AtSelect,
                    waitHalfOpen_started = 0,
                    waitHalfOpen_sleeping = 0,
                    waitHalfOpen_returning = 0\<rparr>)"

section \<open>Window and summary operations\<close>

text \<open>Every index expression \<open>window[len(window) - 1]\<close> and \<open>window[0]\<close> panics on an
  empty window; the panic is the \<open>Inl\<close> result.\<close>

definition incrSuccess :: "CircuitBreaker \<Rightarrow> panic_value + CircuitBreaker" where
  "incrSuccess c =
     (let w = rollingWindow c; i = length w - 1; s = summary c
      in if w = [] then Inl IndexOutOfRange
         else Inr (c\<lparr>rollingWindow :=
                        w[i := (w ! i)\<lparr>Total := Total (w ! i) + 1,
                                       Success := Success (w ! i) + 1\<rparr>],
                      summary := s\<lparr>Total := Total s + 1, Success := Success s + 1\<rparr>\<rparr>))"

definition incrFail :: "CircuitBreaker \<Rightarrow> panic_value + CircuitBreaker" where
  "incrFail c =
     (let w = rollingWindow c; i = length w - 1; s = summary c
      in if w = [] then Inl IndexOutOfRange
         else Inr (c\<lparr>rollingWindow :=
                        w[i := (w ! i)\<lparr>Total := Total (w ! i) + 1,
                                       Fail := Fail (w ! i) + 1\<rparr>],
                      summary := s\<lparr>Fail := Fail s + 1, Total := Total s + 1\<rparr>\<rparr>))"

definition decrSummary :: "Counts \<Rightarrow> CircuitBreaker \<Rightarrow> CircuitBreaker" where
  "decrSummary decr c =
     (let s = summary c
      in c\<lparr>summary := s\<lparr>Fail := Fail s - Fail decr,
                          Success := Success s - Success decr,
                          Total := Total s - Total decr\<rparr>\<rparr>)"

text \<open>\<open>unshiftFrame\<close> removes and returns the first frame.\<close>

definition unshiftFrame :: "CircuitBreaker \<Rightarrow> panic_value + Counts \<times> CircuitBreaker" where
  "unshiftFrame c =
     (case rollingWindow c of
        [] \<Rightarrow> Inl IndexOutOfRange
      | frame # rest \<Rightarrow> Inr (frame, c\<lparr>rollingWindow := rest\<rparr>))"

definition addFrame :: "CircuitBreaker \<Rightarrow> CircuitBreaker" where
  "addFrame c = c\<lparr>rollingWindow := rollingWindow c @ [Counts_zero]\<rparr>"

definition moveWindow :: "CircuitBreaker \<Rightarrow> panic_value + CircuitBreaker" where
  "moveWindow c =
     (case unshiftFrame c of
        Inl p \<Rightarrow> Inl p
      | Inr (frame, c') \<Rightarrow> Inr (addFrame (decrSummary frame c')))"

text \<open>\<open>popFrame\<close> removes and returns the last frame.\<close>

definition popFrame :: "CircuitBreaker \<Rightarrow> panic_value + Counts \<times> CircuitBreaker" where
  "popFrame c =
     (let w = rollingWindow c
      in if w = [] then Inl IndexOutOfRange
         else Inr (w ! (length w - 1), c\<lparr>rollingWindow := take (length w - 1) w\<rparr>))"

definition popWindow :: "CircuitBreaker \<Rightarrow> panic_value + CircuitBreaker" where
  "popWindow c =
     (case popFrame c of
        Inl p \<Rightarrow> Inl p
      | Inr (frame, c') \<Rightarrow> Inr (decrSummary frame c'))"

text \<open>\<open>aggregateHalfOpenFrame\<close> pops the last frame and adds its counts to the frame that
  is last then. When the pop leaves the window empty the index panics with the frame
  already removed: the result keeps the state reached, with the panic beside it.\<close>

definition aggregateHalfOpenFrame :: "CircuitBreaker \<Rightarrow> panic_value option \<times> CircuitBreaker" where
  "aggregateHalfOpenFrame c =
     (case popFrame c of
        Inl p \<Rightarrow> (Some p, c)
      | Inr (halfOpenFrame, c') \<Rightarrow>
          let w = rollingWindow c'; i = length w - 1
          in if w = [] then (Some IndexOutOfRange, c')
             else (None,
                   c'\<lparr>rollingWindow :=
                        w[i := (w ! i)\<lparr>Total := Total (w ! i) + Total halfOpenFrame,
                                       Success := Success (w ! i) + Success halfOpenFrame,
                                       Fail := Fail (w ! i) + Fail halfOpenFrame\<rparr>]\<rparr>))"

definition summaryCopy :: "CircuitBreaker \<Rightarrow> Counts" where
  "summaryCopy c = summary c"

definition currentFrameCopy :: "CircuitBreaker \<Rightarrow> panic_value + Counts" where
  "currentFrameCopy c =
     (let w = rollingWindow c
      in if w = [] then Inl IndexOutOfRange else Inr (w ! (length w - 1)))"

section \<open>Execute\<close>

text \<open>The statement \<open>go c.waitHalfOpen()\<close>.\<close>

definition go_waitHalfOpen :: "CircuitBreaker \<Rightarrow> CircuitBreaker" where
  "go_waitHalfOpen c = c\<lparr>waitHalfOpen_started := Suc (waitHalfOpen_started c)\<rparr>"

definition canExecute :: "CircuitBreaker \<Rightarrow> error option" where
  "canExecute c = (if state c = Open then Some ErrOpenCircuit else None)"

text \<open>\<open>afterExecute\<close>, the deferred call that ends every \<open>Execute\<close>. The result holds the
  panic of an index out of range, if any, and the breaker as the function leaves it.\<close>

definition afterExecute :: "CircuitBreaker \<Rightarrow> panic_value option \<times> CircuitBreaker" where
  "afterExecute c =
     (if state c = Closed then
        (if canTrip c (summaryCopy c)
         then (None, go_waitHalfOpen (c\<lparr>state := Open\<rparr>))
         else (None, c))
      else if state c = HalfOpen then
        (case currentFrameCopy c of
           Inl p \<Rightarrow> (Some p, c)
         | Inr frame \<Rightarrow>
             let s = fromHalfOpenToState c frame
             in if s = Open then
                  (if onHalfOpenTimeout c then (None, c)
                   else (case popWindow ((go_waitHalfOpen c)\<lparr>state := Open\<rparr>) of
                           Inl p \<Rightarrow> (Some p, (go_waitHalfOpen c)\<lparr>state := Open\<rparr>)
                         | Inr c' \<Rightarrow> (None, c')))
                else if s = Closed then aggregateHalfOpenFrame (c\<lparr>state := Closed\<rparr>)
                else (None, c))
      else (None, c))"

text \<open>What the wrapped call does: it returns \<open>nil\<close> or an error, or it panics. What the
  caller of \<open>Execute\<close> gets: a returned value or a panic.\<close>

datatype outcome = Returns "error option" | Panics panic_value

datatype exec_result = Returned "error option" | Panicked panic_value

text \<open>The deferred closure \<open>if r := recover(); r != nil { c.incrFail(); panic(r) }\<close>
  for a panic \<open>r\<close> in flight.\<close>

definition recoverHandler :: "panic_value \<Rightarrow> CircuitBreaker \<Rightarrow> exec_result \<times> CircuitBreaker" where
  "recoverHandler r c =
     (case incrFail c of
        Inl p \<Rightarrow> (Panicked p, c)
      | Inr c' \<Rightarrow> (Panicked r, c'))"

text \<open>The body of \<open>Execute\<close> after \<open>canExecute\<close> has let the call through, for a call
  that has done \<open>out\<close>, up to and with the recover closure.\<close>

definition recordOutcome :: "outcome \<Rightarrow> CircuitBreaker \<Rightarrow> exec_result \<times> CircuitBreaker" where
  "recordOutcome out c =
     (case out of
        Panics r \<Rightarrow> recoverHandler r c
      | Returns (Some err) \<Rightarrow>
          (case incrFail c of
             Inl p \<Rightarrow> recoverHandler p c
           | Inr c' \<Rightarrow> (Returned (Some err), c'))
      | Returns None \<Rightarrow>
          (case incrSuccess c of
             Inl p \<Rightarrow> recoverHandler p c
           | Inr c' \<Rightarrow> (Returned None, c'))
     )"

text \<open>The deferred \<open>afterExecute\<close> runs last; a panic in it replaces the result.\<close>

definition runDeferredAfterExecute :: "exec_result \<times> CircuitBreaker \<Rightarrow> exec_result \<times> CircuitBreaker" where
  "runDeferredAfterExecute rc =
     (case afterExecute (snd rc) of
        (Some p, c') \<Rightarrow> (Panicked p, c')
      | (None, c') \<Rightarrow> (fst rc, c'))"

text \<open>\<open>Execute\<close>. The wrapped call \<open>fn\<close> acts on the world outside the breaker, of type
  \<open>'w\<close>: it is given the world and returns what it does and the world it leaves. A call
  that is not made leaves the world as it is.\<close>

definition Execute ::
  "('w \<Rightarrow> outcome \<times> 'w) \<Rightarrow> CircuitBreaker \<Rightarrow> 'w \<Rightarrow> exec_result \<times> CircuitBreaker \<times> 'w" where
  "Execute fn c w =
     (case canExecute c of
        Some err \<Rightarrow>
          (let (r, c') = runDeferredAfterExecute (Returned (Some err), c) in (r, c', w))
      | None \<Rightarrow>
          (let (out, w') = fn w;
               (r, c') = runDeferredAfterExecute (recordOutcome out c)
           in (r, c', w')))"

text \<open>The test helpers: a call that returns a fixed error, and feeding calls one after
  the other (without jitter).\<close>

definition fixtureCircuitCall :: "error option \<Rightarrow> 'w \<Rightarrow> outcome \<times> 'w" where
  "fixtureCircuitCall err w = (Returns err, w)"

fun syncFeedCircuitBreakerHelper :: "CircuitBreaker \<Rightarrow> error option list \<Rightarrow> panic_value + CircuitBreaker" where
  "syncFeedCircuitBreakerHelper cb [] = Inr cb"
| "syncFeedCircuitBreakerHelper cb (err # calls) =
     (case Execute (fixtureCircuitCall err) cb () of
        (Panicked p, cb', _) \<Rightarrow> Inl p
      | (Returned _, cb', _) \<Rightarrow> syncFeedCircuitBreakerHelper cb' calls)"

section \<open>Goroutines and reachable states\<close>

definition stateCopy :: "CircuitBreaker \<Rightarrow> State" where
  "stateCopy c = state c"

text \<open>
  The \<open>renewFrame\<close> goroutine, one locked section at a time. When
  \<open>time.After(c.cfg.windowFrame)\<close> delivers, it reads the state under the state lock
  and returns for good when the state is not \<open>Closed\<close>. Otherwise it runs
  \<open>moveWindow\<close>, which is \<open>unshiftFrame\<close>, \<open>decrSummary\<close> and \<open>addFrame\<close>, each under
  a lock of its own and none under the state lock: anything else can happen between
  them. A panic of \<open>unshiftFrame\<close> in this goroutine ends the program: no next state.
\<close>

definition renewFrame_elapsed :: "CircuitBreaker \<Rightarrow> CircuitBreaker option" where
  "renewFrame_elapsed c =
     (if renewFrame_at c \<noteq> AtSelect then None
      else if stateCopy c \<noteq> Closed then Some (c\<lparr>renewFrame_at := Exited\<rparr>)
      else Some (c\<lparr>renewFrame_at := AfterStateCopy\<rparr>))"

definition renewFrame_unshiftFrame :: "CircuitBreaker \<Rightarrow> CircuitBreaker option" where
  "renewFrame_unshiftFrame c =
     (if renewFrame_at c \<noteq> AfterStateCopy then None
      else (case unshiftFrame c of
              Inl p \<Rightarrow> None
            | Inr (frame, c') \<Rightarrow> Some (c'\<lparr>renewFrame_at := AfterUnshiftFrame frame\<rparr>)))"

definition renewFrame_decrSummary :: "CircuitBreaker \<Rightarrow> CircuitBreaker option" where
  "renewFrame_decrSummary c =
     (case renewFrame_at c of
        AfterUnshiftFrame frame \<Rightarrow>
          Some ((decrSummary frame c)\<lparr>renewFrame_at := AfterDecrSummary\<rparr>)
      | _ \<Rightarrow> None)"

definition renewFrame_addFrame :: "CircuitBreaker \<Rightarrow> CircuitBreaker option" where
  "renewFrame_addFrame c =
     (if renewFrame_at c = AfterDecrSummary
      then Some ((addFrame c)\<lparr>renewFrame_at := AtSelect\<rparr>)
      else None)"

text \<open>The \<open>cancel\<close> function sends on the channel; \<open>renewFrame\<close> receives it in its
  \<open>select\<close> and returns. With no \<open>renewFrame\<close> left to receive, the send never
  completes.\<close>

definition renewFrame_cancel :: "CircuitBreaker \<Rightarrow> CircuitBreaker option" where
  "renewFrame_cancel c =
     (if renewFrame_at c = AtSelect then Some (c\<lparr>renewFrame_at := Exited\<rparr>) else None)"

text \<open>A rotation is in progress from the state check of a turn to its \<open>addFrame\<close>.\<close>

definition rotation_in_progress :: "CircuitBreaker \<Rightarrow> bool" where
  "rotation_in_progress c =
     (case renewFrame_at c of
        AfterStateCopy \<Rightarrow> True
      | AfterUnshiftFrame frame \<Rightarrow> True
      | AfterDecrSummary \<Rightarrow> True
      | _ \<Rightarrow> False)"

text \<open>The number of frames a rotation in progress has taken off the window and not yet
  replaced: one between \<open>unshiftFrame\<close> and \<open>addFrame\<close>.\<close>

definition frames_taken_off :: "CircuitBreaker \<Rightarrow> nat" where
  "frames_taken_off c =
     (case renewFrame_at c of
        AfterUnshiftFrame frame \<Rightarrow> 1
      | AfterDecrSummary \<Rightarrow> 1
      | _ \<Rightarrow> 0)"

text \<open>
  The three steps of a \<open>waitHalfOpen\<close> goroutine: the store of \<open>true\<close>; after the
  wait, the locked section that sets \<open>HalfOpen\<close> and adds a frame; the deferred store of
  \<open>false\<close>. How long the wait lasts is not part of the model, but for one point: the
  wait is \<open>halfOpenTimeout\<close>, at least a second, and can only begin after the state
  check of a rotation in progress (the check saw \<open>Closed\<close>, and a goroutine waits only
  while the state is \<open>Open\<close>); the three statements of the rotation follow one another
  at once. So the wait does not end while a rotation is in progress.
\<close>

definition waitHalfOpen_begin :: "CircuitBreaker \<Rightarrow> CircuitBreaker option" where
  "waitHalfOpen_begin c =
     (if waitHalfOpen_started c = 0 then None
      else Some (c\<lparr>onHalfOpenTimeout := True,
                   waitHalfOpen_started := waitHalfOpen_started c - 1,
                   waitHalfOpen_sleeping := Suc (waitHalfOpen_sleeping c)\<rparr>))"

definition waitHalfOpen_fire :: "CircuitBreaker \<Rightarrow> CircuitBreaker option" where
  "waitHalfOpen_fire c =
     (if waitHalfOpen_sleeping c = 0 \<or> rotation_in_progress c then None
      else Some (addFrame (c\<lparr>state := HalfOpen,
                             waitHalfOpen_sleeping := waitHalfOpen_sleeping c - 1,
                             waitHalfOpen_returning := Suc (waitHalfOpen_returning c)\<rparr>)))"

definition waitHalfOpen_end :: "CircuitBreaker \<Rightarrow> CircuitBreaker option" where
  "waitHalfOpen_end c =
     (if waitHalfOpen_returning c = 0 then None
      else Some (c\<lparr>onHalfOpenTimeout := False,
                   waitHalfOpen_returning := waitHalfOpen_returning c - 1\<rparr>))"

text \<open>
  What can happen to a breaker. A caller runs \<open>Execute\<close> with a call that does \<open>out\<close>
  and nothing falls between its statements (\<open>Call out\<close>). Or the \<open>Execute\<close> of a caller
  is interleaved with other callers and with the goroutines; what it does to the breaker
  is then its counting, one section under the window lock and the summary lock
  (\<open>CallCounted out\<close>: the caller was admitted earlier, and the state may have changed
  since), and its deferred \<open>afterExecute\<close>, one section under the state lock
  (\<open>CallDeferred\<close>). Or one of the goroutines takes a step, one locked section at a time:
  the sections of a caller can fall between \<open>unshiftFrame\<close>, \<open>decrSummary\<close> and
  \<open>addFrame\<close> of a rotation. Under the state lock, \<open>afterExecute\<close> and the end of
  \<open>waitHalfOpen\<close> take the window lock and the summary lock several times; each of
  the two is taken as one step, and the counting of another caller that falls inside
  one of them is not modelled.
\<close>

datatype event =
    Call outcome
  | CallCounted outcome
  | CallDeferred
  | FrameElapsed
  | MoveWindowUnshift
  | MoveWindowDecr
  | MoveWindowAdd
  | Cancel
  | TimerBegin
  | TimerFire
  | TimerEnd

fun step :: "event \<Rightarrow> CircuitBreaker \<Rightarrow> CircuitBreaker option" where
  "step (Call out) c = Some (fst (snd (Execute (\<lambda>w. (out, w)) c ())))"
| "step (CallCounted out) c = Some (snd (recordOutcome out c))"
| "step CallDeferred c = Some (snd (afterExecute c))"
| "step FrameElapsed c = renewFrame_elapsed c"
| "step MoveWindowUnshift c = renewFrame_unshiftFrame c"
| "step MoveWindowDecr c = renewFrame_decrSummary c"
| "step MoveWindowAdd c = renewFrame_addFrame c"
| "step Cancel c = renewFrame_cancel c"
| "step TimerBegin c = waitHalfOpen_begin c"
| "step TimerFire c = waitHalfOpen_fire c"
| "step TimerEnd c = waitHalfOpen_end c"

fun run :: "event list \<Rightarrow> CircuitBreaker \<Rightarrow> CircuitBreaker option" where
  "run [] c = Some c"
| "run (ev # evs) c = (case step ev c of None \<Rightarrow> None | Some c' \<Rightarrow> run evs c')"

text \<open>\<open>reachable opts evs c\<close>: \<open>New opts\<close> succeeds and the events \<open>evs\<close> lead from the
  breaker it returns to \<open>c\<close>.\<close>

definition reachable :: "breaker_option list \<Rightarrow> event list \<Rightarrow> CircuitBreaker \<Rightarrow> bool" where
  "reachable opts evs c =
     (case New opts of Inl err \<Rightarrow> False | Inr c0 \<Rightarrow> run evs c0 = Some c)"

text \<open>The number of frames \<open>New\<close> gives the window: \<open>windowRoll / windowFrame\<close>.\<close>

definition frames_of :: "breaker_option list \<Rightarrow> nat" where
  "frames_of opts =
     (case New opts of Inl err \<Rightarrow> 0 | Inr c0 \<Rightarrow> length (rollingWindow c0))"

text \<open>The \<open>waitHalfOpen\<close> goroutines that have still to set \<open>HalfOpen\<close>.\<close>

definition armed_timers :: "CircuitBreaker \<Rightarrow> nat" where
  "armed_timers c = waitHalfOpen_started c + waitHalfOpen_sleeping c"

section \<open>Invariants\<close>

definition counts_consistent :: "Counts \<Rightarrow> bool" where
  "counts_consistent f = (Total f = Fail f + Success f)"

definition sum_counts :: "Counts list \<Rightarrow> Counts" where
  "sum_counts fs =
     \<lparr>Total = sum_list (map Total fs),
      Fail = sum_list (map Fail fs),
      Success = sum_list (map Success fs)\<rparr>"

text \<open>The two equalities: the summary is the sum of the frames in the window, and
  \<open>Total = Fail + Success\<close> in the summary and in every frame.\<close>

definition counts_invariant :: "CircuitBreaker \<Rightarrow> bool" where
  "counts_invariant c =
     (summary c = sum_counts (rollingWindow c) \<and>
      counts_consistent (summary c) \<and>
      list_all counts_consistent (rollingWindow c))"

text \<open>Between \<open>unshiftFrame\<close> and \<open>decrSummary\<close> of a rotation the summary still counts
  the frame taken off the window. \<open>summed_frames\<close> is that frame, if there is one,
  followed by the window; \<open>counts_invariant_rotating\<close> is the two equalities with the
  summary as the sum of these frames.\<close>

fun frame_awaiting_decrSummary :: "renewFrame_pc \<Rightarrow> Counts list" where
  "frame_awaiting_decrSummary (AfterUnshiftFrame frame) = [frame]"
| "frame_awaiting_decrSummary AtSelect = []"
| "frame_awaiting_decrSummary AfterStateCopy = []"
| "frame_awaiting_decrSummary AfterDecrSummary = []"
| "frame_awaiting_decrSummary Exited = []"

definition summed_frames :: "CircuitBreaker \<Rightarrow> Counts list" where
  "summed_frames c = frame_awaiting_decrSummary (renewFrame_at c) @ rollingWindow c"

definition counts_invariant_rotating :: "CircuitBreaker \<Rightarrow> bool" where
  "counts_invariant_rotating c =
     (summary c = sum_counts (summed_frames c) \<and>
      counts_consistent (summary c) \<and>
      list_all counts_consistent (summed_frames c))"

text \<open>The shape of a breaker whose window was made with \<open>n\<close> frames: the state is one of
  the three constants; the window, with the frame a rotation in progress has taken
  off, has \<open>n\<close> frames and one more while \<open>HalfOpen\<close>; a \<open>waitHalfOpen\<close> goroutine has
  still to fire exactly while the state is \<open>Open\<close>; and no rotation is in progress
  while \<open>HalfOpen\<close>.\<close>

definition shape_invariant :: "nat \<Rightarrow> CircuitBreaker \<Rightarrow> bool" where
  "shape_invariant n c =
     (0 < n \<and>
      (state c = Closed \<or> state c = HalfOpen \<or> state c = Open) \<and>
      length (rollingWindow c) + frames_taken_off c =
        (if state c = HalfOpen then Suc n else n) \<and>
      armed_timers c = (if state c = Open then 1 else 0) \<and>
      (state c = HalfOpen \<longrightarrow> \<not> rotation_in_progress c))"

section \<open>Vocabulary of the specification\<close>

text \<open>
  Following the specification's words, not the code: \<open>recordOutcome\<close> "increments the
  current (newest) bucket's Total and Fail-or-Success, and the Summary, atomically as
  one unit". \<open>spec_add_outcome\<close> is one more success (the call returned \<open>nil\<close>) or one
  more failure (it returned an error or panicked) in a \<open>Counts\<close>;
  \<open>spec_recordOutcome\<close> does it to the newest frame and to the summary;
  \<open>spec_result\<close> is the call's own result handed to the caller unchanged. They are
  compared with \<open>recordOutcome\<close> of the code below.
\<close>

definition spec_add_outcome :: "outcome \<Rightarrow> Counts \<Rightarrow> Counts" where
  "spec_add_outcome out f =
     (case out of
        Returns None \<Rightarrow> f\<lparr>Total := Total f + 1, Success := Success f + 1\<rparr>
      | Returns (Some err) \<Rightarrow> f\<lparr>Total := Total f + 1, Fail := Fail f + 1\<rparr>
      | Panics r \<Rightarrow> f\<lparr>Total := Total f + 1, Fail := Fail f + 1\<rparr>)"

definition spec_recordOutcome :: "outcome \<Rightarrow> CircuitBreaker \<Rightarrow> CircuitBreaker" where
  "spec_recordOutcome out c =
     c\<lparr>rollingWindow :=
          butlast (rollingWindow c) @ [spec_add_outcome out (last (rollingWindow c))],
       summary := spec_add_outcome out (summary c)\<rparr>"

definition spec_result :: "outcome \<Rightarrow> exec_result" where
  "spec_result out = (case out of Returns err \<Rightarrow> Returned err | Panics r \<Rightarrow> Panicked r)"

section \<open>Fixtures of the tests\<close>

text \<open>The options, the error and the calls of \<open>TestBreakerClosedToHalfOpen\<close>; a breaker
  made with these options, by its fields that change; and a resolution policy given as
  an option, which closes on a probe without failure and reopens otherwise.\<close>

definition test_options :: "breaker_option list" where
  "test_options =
     [WithWindowFrameThreshold 10, WithWindowRollThreshold 30, WithHalfOpenThreshold 2]"

definition errCall :: error where
  "errCall = CallError ''execute error''"

definition test_calls :: "error option list" where
  "test_calls = replicate 7 (Some errCall) @ replicate 4 None"

definition closeOnCleanProbe :: "Counts \<Rightarrow> State" where
  "closeOnCleanProbe probe = (if 0 < Fail probe then Open else Closed)"

definition test_breaker ::
  "(Counts \<Rightarrow> State) \<Rightarrow> State \<Rightarrow> bool \<Rightarrow> Counts list \<Rightarrow> Counts \<Rightarrow> nat \<Rightarrow> nat \<Rightarrow> nat
   \<Rightarrow> CircuitBreaker" where
  "test_breaker policy s b w sm k1 k2 k3 =
     \<lparr>state = s, onHalfOpenTimeout = b, canTrip = defaultCanTrip,
      fromHalfOpenToState = policy,
      cfg = \<lparr>windowRoll = 30000000000, windowFrame = 10000000000,
             halfOpenTimeout = 2000000000\<rparr>,
      rollingWindow = w, summary = sm, renewFrame_at = AtSelect,
      waitHalfOpen_started = k1, waitHalfOpen_sleeping = k2, waitHalfOpen_returning = k3\<rparr>"

text \<open>The options of a breaker whose roll is one frame long, and such a breaker while
  \<open>Closed\<close>, by its window, its summary and the place of its \<open>renewFrame\<close> goroutine.\<close>

definition one_frame_options :: "breaker_option list" where
  "one_frame_options = [WithWindowFrameThreshold 10, WithWindowRollThreshold 10]"

definition one_frame_breaker :: "Counts list \<Rightarrow> Counts \<Rightarrow> renewFrame_pc \<Rightarrow> CircuitBreaker" where
  "one_frame_breaker w sm pc =
     \<lparr>state = Closed, onHalfOpenTimeout = False, canTrip = defaultCanTrip,
      fromHalfOpenToState = defaultFromHalfOpenToState,
      cfg = \<lparr>windowRoll = 10000000000, windowFrame = 10000000000,
             halfOpenTimeout = 30000000000\<rparr>,
      rollingWindow = w, summary = sm, renewFrame_at = pc,
      waitHalfOpen_started = 0, waitHalfOpen_sleeping = 0, waitHalfOpen_returning = 0\<rparr>"

text \<open>A call that succeeds and leaves a mark in the world: it counts its invocations.\<close>

definition countingCall :: "error option \<Rightarrow> int \<Rightarrow> outcome \<times> int" where
  "countingCall err w = (Returns err, w + 1)"

text \<open>Used in the proofs about \<open>New\<close>: both thresholds of the options are positive.\<close>

definition thresholds_positive :: "optionsConfiguration \<Rightarrow> bool" where
  "thresholds_positive cbOpts = (0 < opt_windowFrame cbOpts \<and> 0 < opt_windowRoll cbOpts)"

section \<open>Proofs: the state constants\<close>

lemma State_distinct [simp]:
  "Closed \<noteq> HalfOpen" "Closed \<noteq> Open" "HalfOpen \<noteq> Closed"
  "HalfOpen \<noteq> Open" "Open \<noteq> Closed" "Open \<noteq> HalfOpen"
  by (simp_all add: Closed_def HalfOpen_def Open_def)

section \<open>Proofs: the operations on a window written as older frames and a newest frame\<close>

lemma incrSuccess_snoc:
  "rollingWindow c = ys @ [x] \<Longrightarrow>
   incrSuccess c =
     Inr (c\<lparr>rollingWindow := ys @ [x\<lparr>Total := Total x + 1, Success := Success x + 1\<rparr>],
            summary := (summary c)\<lparr>Total := Total (summary c) + 1,
                                   Success := Success (summary c) + 1\<rparr>\<rparr>)"
  by (simp add: incrSuccess_def Let_def)

lemma incrFail_snoc:
  "rollingWindow c = ys @ [x] \<Longrightarrow>
   incrFail c =
     Inr (c\<lparr>rollingWindow := ys @ [x\<lparr>Total := Total x + 1, Fail := Fail x + 1\<rparr>],
            summary := (summary c)\<lparr>Fail := Fail (summary c) + 1,
                                   Total := Total (summary c) + 1\<rparr>\<rparr>)"
  by (simp add: incrFail_def Let_def)

lemma popFrame_snoc:
  "rollingWindow c = ys @ [x] \<Longrightarrow> popFrame c = Inr (x, c\<lparr>rollingWindow := ys\<rparr>)"
  by (simp add: popFrame_def Let_def)

lemma popWindow_snoc:
  "rollingWindow c = ys @ [x] \<Longrightarrow>
   popWindow c = Inr (decrSummary x (c\<lparr>rollingWindow := ys\<rparr>))"
  by (simp add: popWindow_def popFrame_snoc)

lemma aggregateHalfOpenFrame_snoc:
  "rollingWindow c = ys @ [y, x] \<Longrightarrow>
   aggregateHalfOpenFrame c =
     (None, c\<lparr>rollingWindow :=
                 ys @ [y\<lparr>Total := Total y + Total x,
                          Success := Success y + Success x,
                          Fail := Fail y + Fail x\<rparr>]\<rparr>)"
  using popFrame_snoc [of c "ys @ [y]" x]
  by (simp add: aggregateHalfOpenFrame_def Let_def)

lemma currentFrameCopy_snoc:
  "rollingWindow c = ys @ [x] \<Longrightarrow> currentFrameCopy c = Inr x"
  by (simp add: currentFrameCopy_def Let_def)

lemma incrSuccess_empty: "rollingWindow c = [] \<Longrightarrow> incrSuccess c = Inl IndexOutOfRange"
  by (simp add: incrSuccess_def)

lemma incrFail_empty: "rollingWindow c = [] \<Longrightarrow> incrFail c = Inl IndexOutOfRange"
  by (simp add: incrFail_def)

lemma popFrame_empty: "rollingWindow c = [] \<Longrightarrow> popFrame c = Inl IndexOutOfRange"
  by (simp add: popFrame_def)

section \<open>Proofs: the operations keep the counts invariant\<close>

lemma sum_list_consistent:
  "list_all counts_consistent fs \<Longrightarrow>
   sum_list (map Total fs) = sum_list (map Fail fs) + sum_list (map Success fs)"
  by (induction fs) (simp_all add: counts_consistent_def)

lemma counts_invariant_snoc:
  "rollingWindow c = ys @ [x] \<Longrightarrow>
   counts_invariant c \<longleftrightarrow>
     summary c = \<lparr>Total = sum_list (map Total ys) + Total x,
                  Fail = sum_list (map Fail ys) + Fail x,
                  Success = sum_list (map Success ys) + Success x\<rparr> \<and>
     counts_consistent (summary c) \<and> list_all counts_consistent ys \<and> counts_consistent x"
  by (auto simp: counts_invariant_def sum_counts_def)

lemma incrSuccess_counts:
  assumes "counts_invariant c" "incrSuccess c = Inr c'"
  shows "counts_invariant c'"
proof (cases "rollingWindow c" rule: rev_cases)
  case Nil
  with assms(2) show ?thesis by (simp add: incrSuccess_empty)
next
  case (snoc ys x)
  from assms(2) have c': "c' = c\<lparr>rollingWindow := ys @ [x\<lparr>Total := Total x + 1, Success := Success x + 1\<rparr>],
            summary := (summary c)\<lparr>Total := Total (summary c) + 1,
                                   Success := Success (summary c) + 1\<rparr>\<rparr>"
    by (simp add: incrSuccess_snoc [OF snoc])
  from assms(1) show ?thesis
    unfolding c' counts_invariant_snoc [OF snoc]
    by (simp add: sum_list_consistent counts_invariant_def sum_counts_def counts_consistent_def)
qed

lemma incrFail_counts:
  assumes "counts_invariant c" "incrFail c = Inr c'"
  shows "counts_invariant c'"
proof (cases "rollingWindow c" rule: rev_cases)
  case Nil
  with assms(2) show ?thesis by (simp add: incrFail_empty)
next
  case (snoc ys x)
  from assms(2) have c': "c' = c\<lparr>rollingWindow := ys @ [x\<lparr>Total := Total x + 1, Fail := Fail x + 1\<rparr>],
            summary := (summary c)\<lparr>Fail := Fail (summary c) + 1,
                                   Total := Total (summary c) + 1\<rparr>\<rparr>"
    by (simp add: incrFail_snoc [OF snoc])
  from assms(1) show ?thesis
    unfolding c' counts_invariant_snoc [OF snoc]
    by (simp add: sum_list_consistent counts_invariant_def sum_counts_def counts_consistent_def)
qed

lemma decrSummary_pop_counts:
  assumes "counts_invariant c" "rollingWindow c = ys @ [x]"
  shows "counts_invariant (decrSummary x (c\<lparr>rollingWindow := ys\<rparr>))"
  using assms(1) unfolding counts_invariant_snoc [OF assms(2)]
  by (simp add: sum_list_consistent counts_invariant_def sum_counts_def counts_consistent_def decrSummary_def)

lemma moveWindow_counts:
  assumes "counts_invariant c" "moveWindow c = Inr c'"
  shows "counts_invariant c'"
proof (cases "rollingWindow c")
  case Nil
  with assms(2) show ?thesis by (simp add: moveWindow_def unshiftFrame_def)
next
  case (Cons frame rest)
  with assms(2) have c': "c' = addFrame (decrSummary frame (c\<lparr>rollingWindow := rest\<rparr>))"
    by (simp add: moveWindow_def unshiftFrame_def)
  from assms(1) Cons show ?thesis
    unfolding c'
    by (simp add: sum_list_consistent counts_invariant_def sum_counts_def counts_consistent_def decrSummary_def
        addFrame_def Counts_zero_def)
qed

lemma popWindow_counts:
  assumes "counts_invariant c" "popWindow c = Inr c'"
  shows "counts_invariant c'"
proof (cases "rollingWindow c" rule: rev_cases)
  case Nil
  with assms(2) show ?thesis by (simp add: popWindow_def popFrame_empty)
next
  case (snoc ys x)
  with assms show ?thesis
    using decrSummary_pop_counts [OF assms(1) snoc] by (simp add: popWindow_snoc [OF snoc])
qed

lemma aggregate_counts_snoc:
  assumes "counts_invariant c" "rollingWindow c = ys @ [y, x]"
  shows "counts_invariant (c\<lparr>rollingWindow :=
                 ys @ [y\<lparr>Total := Total y + Total x,
                          Success := Success y + Success x,
                          Fail := Fail y + Fail x\<rparr>]\<rparr>)"
  using assms
  by (simp add: sum_list_consistent counts_invariant_def sum_counts_def counts_consistent_def)

lemma aggregateHalfOpenFrame_counts:
  assumes "counts_invariant c" "aggregateHalfOpenFrame c = (None, c')"
  shows "counts_invariant c'"
proof (cases "rollingWindow c" rule: rev_cases)
  case Nil
  with assms(2) show ?thesis by (simp add: aggregateHalfOpenFrame_def popFrame_empty)
next
  case (snoc zs x)
  show ?thesis
  proof (cases zs rule: rev_cases)
    case Nil
    with snoc assms(2) show ?thesis
      using popFrame_snoc [of c "[]" x] by (simp add: aggregateHalfOpenFrame_def Let_def)
  next
    case (snoc ys y)
    with \<open>rollingWindow c = zs @ [x]\<close> have w: "rollingWindow c = ys @ [y, x]" by simp
    from assms show ?thesis
      using aggregate_counts_snoc [OF assms(1) w] by (simp add: aggregateHalfOpenFrame_snoc [OF w])
  qed
qed

lemma addFrame_counts: "counts_invariant c \<Longrightarrow> counts_invariant (addFrame c)"
  by (simp add: sum_list_consistent addFrame_def counts_invariant_def sum_counts_def Counts_zero_def
      counts_consistent_def)

section \<open>Proofs: the constructor\<close>

lemma apply_option_positive:
  "apply_option opt cbOpts = Inr cbOpts' \<Longrightarrow> thresholds_positive cbOpts \<Longrightarrow>
   thresholds_positive cbOpts'"
  by (cases opt) (auto simp: thresholds_positive_def split: if_splits option.splits)

lemma apply_options_positive:
  "apply_options opts cbOpts = Inr cbOpts' \<Longrightarrow> thresholds_positive cbOpts \<Longrightarrow>
   thresholds_positive cbOpts'"
proof (induction opts arbitrary: cbOpts)
  case Nil
  then show ?case by simp
next
  case (Cons opt opts)
  then show ?case
    by (auto split: sum.splits dest: apply_option_positive)
qed

lemma go_div_positive: "0 < b \<Longrightarrow> b \<le> a \<Longrightarrow> go_div a b = a div b"
  by (simp add: go_div_def)

lemma div_positive: "0 < b \<Longrightarrow> b \<le> a \<Longrightarrow> 0 < a div (b::int)"
  by (simp add: pos_imp_zdiv_pos_iff)

lemma New_Inr:
  assumes "New opts = Inr c"
  obtains cbOpts where
    "apply_options opts default_options = Inr cbOpts"
    "0 < opt_windowFrame cbOpts" "opt_windowFrame cbOpts \<le> opt_windowRoll cbOpts"
    "state c = Closed" "onHalfOpenTimeout c = False"
    "canTrip c = opt_canTrip cbOpts" "fromHalfOpenToState c = opt_fromHalfOpenToState cbOpts"
    "rollingWindow c =
       replicate (nat (opt_windowRoll cbOpts div opt_windowFrame cbOpts)) Counts_zero"
    "0 < opt_windowRoll cbOpts div opt_windowFrame cbOpts"
    "summary c = Counts_zero" "renewFrame_at c = AtSelect"
    "waitHalfOpen_started c = 0" "waitHalfOpen_sleeping c = 0" "waitHalfOpen_returning c = 0"
proof -
  from assms obtain cbOpts where a: "apply_options opts default_options = Inr cbOpts"
    by (auto simp: New_def split: sum.splits)
  have "thresholds_positive default_options"
    by (simp add: thresholds_positive_def default_options_def)
  with a have pos: "thresholds_positive cbOpts" by (rule apply_options_positive)
  from assms a have le: "opt_windowFrame cbOpts \<le> opt_windowRoll cbOpts"
    by (auto simp: New_def split: if_splits)
  from pos have f: "0 < opt_windowFrame cbOpts" by (simp add: thresholds_positive_def)
  note d = go_div_positive [OF f le] div_positive [OF f le]
  from assms a le have c: "c = \<lparr>state = Closed,
                    onHalfOpenTimeout = False,
                    canTrip = opt_canTrip cbOpts,
                    fromHalfOpenToState = opt_fromHalfOpenToState cbOpts,
                    cfg = \<lparr>windowRoll = time_Second * word_of_int (opt_windowRoll cbOpts),
                           windowFrame = time_Second * word_of_int (opt_windowFrame cbOpts),
                           halfOpenTimeout = time_Second * word_of_int (halfOpenThreshold cbOpts)\<rparr>,
                    rollingWindow = replicate (nat (opt_windowRoll cbOpts div opt_windowFrame cbOpts)) Counts_zero,
                    summary = Counts_zero,
                    renewFrame_at = AtSelect,
                    waitHalfOpen_started = 0,
                    waitHalfOpen_sleeping = 0,
                    waitHalfOpen_returning = 0\<rparr>"
    by (simp add: New_def Let_def d)
  show thesis
    by (rule that [OF a f le]) (simp_all add: c d)
qed

lemma sum_list_replicate_zero [simp]: "sum_list (replicate n (0 :: uint64)) = 0"
  by (induction n) simp_all

lemma New_counts_invariant: "New opts = Inr c \<Longrightarrow> counts_invariant c"
  by (erule New_Inr)
    (simp add: counts_invariant_def sum_counts_def Counts_zero_def
      counts_consistent_def list_all_iff)

lemma New_shape_invariant:
  "New opts = Inr c \<Longrightarrow> shape_invariant (length (rollingWindow c)) c"
  by (erule New_Inr)
    (simp add: shape_invariant_def armed_timers_def frames_taken_off_def
      rotation_in_progress_def)

section \<open>Proofs: fields the invariants do not read\<close>

lemma counts_invariant_fields [simp]:
  "counts_invariant (c\<lparr>state := s\<rparr>) = counts_invariant c"
  "counts_invariant (c\<lparr>onHalfOpenTimeout := b\<rparr>) = counts_invariant c"
  "counts_invariant (c\<lparr>renewFrame_at := pc\<rparr>) = counts_invariant c"
  "counts_invariant (c\<lparr>waitHalfOpen_started := k\<rparr>) = counts_invariant c"
  "counts_invariant (c\<lparr>waitHalfOpen_sleeping := k\<rparr>) = counts_invariant c"
  "counts_invariant (c\<lparr>waitHalfOpen_returning := k\<rparr>) = counts_invariant c"
  "counts_invariant (go_waitHalfOpen c) = counts_invariant c"
  by (simp_all add: counts_invariant_def go_waitHalfOpen_def)

lemmas shape_defs = shape_invariant_def armed_timers_def frames_taken_off_def
  rotation_in_progress_def

lemma shape_invariant_fields [simp]:
  "shape_invariant n (c\<lparr>onHalfOpenTimeout := b\<rparr>) = shape_invariant n c"
  "shape_invariant n (c\<lparr>waitHalfOpen_returning := k\<rparr>) = shape_invariant n c"
  "shape_invariant n (c\<lparr>summary := s\<rparr>) = shape_invariant n c"
  by (simp_all add: shape_defs)

lemma shape_invariant_window:
  "length w = length (rollingWindow c) \<Longrightarrow>
   shape_invariant n (c\<lparr>rollingWindow := w\<rparr>) = shape_invariant n c"
  by (simp add: shape_defs)

lemma no_rotation_no_frame_taken_off:
  "\<not> rotation_in_progress c \<Longrightarrow> frames_taken_off c = 0"
  by (simp add: rotation_in_progress_def frames_taken_off_def split: renewFrame_pc.splits)

lemma shape_HalfOpen_two_frames:
  assumes "shape_invariant n c" "state c = HalfOpen"
  obtains ys y x where "rollingWindow c = ys @ [y, x]" "length ys = n - 1"
proof -
  from assms have "\<not> rotation_in_progress c" by (simp add: shape_invariant_def)
  then have "frames_taken_off c = 0" by (rule no_rotation_no_frame_taken_off)
  with assms have len: "length (rollingWindow c) = Suc n" and n: "0 < n"
    by (simp_all add: shape_invariant_def)
  then obtain zs x where zs: "rollingWindow c = zs @ [x]"
    by (cases "rollingWindow c" rule: rev_cases) auto
  with len n obtain ys y where "zs = ys @ [y]"
    by (cases zs rule: rev_cases) auto
  with zs len show thesis by (intro that [of ys y x]) auto
qed

lemma shape_window_nonempty:
  assumes "shape_invariant n c" "frames_taken_off c = 0"
  shows "rollingWindow c \<noteq> []"
  using assms by (auto simp: shape_invariant_def split: if_splits)

section \<open>Proofs: Execute and the goroutines keep the shape\<close>

lemma recordOutcome_empty:
  "rollingWindow c = [] \<Longrightarrow> recordOutcome out c = (Panicked IndexOutOfRange, c)"
  by (simp add: recordOutcome_def recoverHandler_def incrFail_empty incrSuccess_empty
      split: outcome.splits option.splits)

lemma recordOutcome_snoc:
  assumes "rollingWindow c = ys @ [x]"
  shows "recordOutcome out c =
     (case out of
        Panics r \<Rightarrow> (Panicked r, projr (incrFail c))
      | Returns (Some err) \<Rightarrow> (Returned (Some err), projr (incrFail c))
      | Returns None \<Rightarrow> (Returned None, projr (incrSuccess c)))"
  by (simp add: recordOutcome_def recoverHandler_def incrFail_snoc [OF assms]
      incrSuccess_snoc [OF assms] split: outcome.splits option.splits)

lemma recordOutcome_shape:
  assumes "shape_invariant n c" "recordOutcome out c = (r, c')"
  shows "shape_invariant n c' \<and> state c' = state c"
proof (cases "rollingWindow c" rule: rev_cases)
  case Nil
  with assms show ?thesis by (simp add: recordOutcome_empty)
next
  case (snoc ys x)
  have s: "shape_invariant n (projr (incrSuccess c))" "state (projr (incrSuccess c)) = state c"
    using assms(1) snoc by (simp_all add: incrSuccess_snoc [OF snoc] shape_invariant_window)
  have f: "shape_invariant n (projr (incrFail c))" "state (projr (incrFail c)) = state c"
    using assms(1) snoc by (simp_all add: incrFail_snoc [OF snoc] shape_invariant_window)
  from assms(2) show ?thesis
    unfolding recordOutcome_snoc [OF snoc]
    using s f by (auto split: outcome.splits option.splits)
qed

lemma afterExecute_shape:
  assumes "shape_invariant n c" "afterExecute c = (p, c')"
  shows "p = None \<and> shape_invariant n c'"
proof -
  consider (closed) "state c = Closed" | (halfopen) "state c = HalfOpen" | (opened) "state c = Open"
    using assms(1) by (auto simp: shape_invariant_def)
  then show ?thesis
  proof cases
    case closed
    with assms show ?thesis
      by (auto simp: afterExecute_def shape_defs go_waitHalfOpen_def split: if_splits)
  next
    case opened
    with assms show ?thesis by (simp add: afterExecute_def)
  next
    case halfopen
    from shape_HalfOpen_two_frames [OF assms(1) halfopen]
    obtain ys y x where w: "rollingWindow c = ys @ [y, x]" and len: "length ys = n - 1"
      by blast
    then have w': "rollingWindow c = (ys @ [y]) @ [x]" by simp
    let ?o = "(go_waitHalfOpen c)\<lparr>state := Open\<rparr>"
    have wo: "rollingWindow ?o = (ys @ [y]) @ [x]"
      using w by (simp add: go_waitHalfOpen_def)
    have wc: "rollingWindow (c\<lparr>state := Closed\<rparr>) = ys @ [y, x]"
      using w by simp
    have n: "0 < n" using assms(1) by (simp add: shape_invariant_def)
    have armed: "armed_timers c = 0"
      using assms(1) halfopen by (simp add: shape_invariant_def)
    have idle: "frames_taken_off c = 0"
      using assms(1) halfopen
      by (intro no_rotation_no_frame_taken_off) (simp add: shape_invariant_def)
    have pop: "popWindow ?o = Inr (decrSummary x (?o\<lparr>rollingWindow := ys @ [y]\<rparr>))"
      by (rule popWindow_snoc [OF wo])
    have pop_shape: "shape_invariant n (decrSummary x (?o\<lparr>rollingWindow := ys @ [y]\<rparr>))"
      using n len armed idle
      by (simp add: shape_defs decrSummary_def Let_def go_waitHalfOpen_def)
    have agg: "aggregateHalfOpenFrame (c\<lparr>state := Closed\<rparr>) =
      (None, c\<lparr>state := Closed, rollingWindow :=
                 ys @ [y\<lparr>Total := Total y + Total x,
                          Success := Success y + Success x,
                          Fail := Fail y + Fail x\<rparr>]\<rparr>)"
      using aggregateHalfOpenFrame_snoc [OF wc] by simp
    have agg_shape: "shape_invariant n (c\<lparr>state := Closed, rollingWindow :=
                 ys @ [y\<lparr>Total := Total y + Total x,
                          Success := Success y + Success x,
                          Fail := Fail y + Fail x\<rparr>]\<rparr>)"
      using n len armed idle by (simp add: shape_defs)
    from assms(2) show ?thesis
      unfolding afterExecute_def currentFrameCopy_snoc [OF w'] Let_def
      using halfopen assms(1) pop pop_shape agg agg_shape
      by (auto split: if_splits)
  qed
qed

lemma Execute_shape:
  assumes "shape_invariant n c" "Execute fn c w = (r, c', w')"
  shows "shape_invariant n c'"
proof (cases "canExecute c")
  case (Some err)
  obtain p c1 where a: "afterExecute c = (p, c1)" by (cases "afterExecute c")
  from afterExecute_shape [OF assms(1) a] assms(2) Some a show ?thesis
    by (auto simp: Execute_def runDeferredAfterExecute_def split: option.splits)
next
  case None
  obtain out w1 where f: "fn w = (out, w1)" by (cases "fn w")
  obtain r1 c1 where ro: "recordOutcome out c = (r1, c1)" by (cases "recordOutcome out c")
  obtain p c2 where a: "afterExecute c1 = (p, c2)" by (cases "afterExecute c1")
  from recordOutcome_shape [OF assms(1) ro]
  have "shape_invariant n c1" by simp
  from afterExecute_shape [OF this a] assms(2) None f ro a show ?thesis
    by (auto simp: Execute_def runDeferredAfterExecute_def split: option.splits)
qed

lemma step_shape:
  assumes "shape_invariant n c" "step ev c = Some c'"
  shows "shape_invariant n c'"
proof (cases ev)
  case (Call out)
  obtain r c1 w1 where e: "Execute (\<lambda>w. (out, w)) c () = (r, c1, w1)"
    by (cases "Execute (\<lambda>w. (out, w)) c ()") auto
  from Execute_shape [OF assms(1) e] assms(2) Call e show ?thesis by simp
next
  case (CallCounted out)
  obtain r c1 where e: "recordOutcome out c = (r, c1)" by (cases "recordOutcome out c")
  from recordOutcome_shape [OF assms(1) e] assms(2) CallCounted e show ?thesis by simp
next
  case CallDeferred
  obtain p c1 where e: "afterExecute c = (p, c1)" by (cases "afterExecute c")
  from afterExecute_shape [OF assms(1) e] assms(2) CallDeferred e show ?thesis by simp
next
  case FrameElapsed
  with assms show ?thesis
    by (auto simp: renewFrame_elapsed_def stateCopy_def shape_defs split: if_splits)
next
  case MoveWindowUnshift
  with assms show ?thesis
    by (cases "rollingWindow c")
      (auto simp: renewFrame_unshiftFrame_def unshiftFrame_def shape_defs split: if_splits)
next
  case MoveWindowDecr
  with assms show ?thesis
    by (auto simp: renewFrame_decrSummary_def decrSummary_def Let_def shape_defs
        split: renewFrame_pc.splits if_splits)
next
  case MoveWindowAdd
  with assms show ?thesis
    by (auto simp: renewFrame_addFrame_def addFrame_def shape_defs split: if_splits)
next
  case Cancel
  with assms show ?thesis
    by (auto simp: renewFrame_cancel_def shape_defs split: if_splits)
next
  case TimerBegin
  with assms show ?thesis
    by (auto simp: waitHalfOpen_begin_def shape_defs split: if_splits)
next
  case TimerFire
  with assms(2) have s: "0 < waitHalfOpen_sleeping c" and idle: "\<not> rotation_in_progress c"
    and c': "c' = addFrame (c\<lparr>state := HalfOpen,
                             waitHalfOpen_sleeping := waitHalfOpen_sleeping c - 1,
                             waitHalfOpen_returning := Suc (waitHalfOpen_returning c)\<rparr>)"
    by (auto simp: waitHalfOpen_fire_def split: if_splits)
  from s assms(1) have o: "state c = Open" "armed_timers c = 1"
    by (auto simp: shape_invariant_def armed_timers_def split: if_splits)
  from idle have t: "frames_taken_off c = 0" by (rule no_rotation_no_frame_taken_off)
  show ?thesis
    using assms(1) o s idle t unfolding c'
    by (auto simp: shape_defs addFrame_def)
next
  case TimerEnd
  with assms show ?thesis by (auto simp: waitHalfOpen_end_def shape_defs split: if_splits)
qed

lemma run_shape:
  "shape_invariant n c \<Longrightarrow> run evs c = Some c' \<Longrightarrow> shape_invariant n c'"
proof (induction evs arbitrary: c)
  case Nil
  then show ?case by simp
next
  case (Cons ev evs)
  from Cons.prems(2) obtain c1 where s: "step ev c = Some c1" and r: "run evs c1 = Some c'"
    by (auto split: option.splits)
  from step_shape [OF Cons.prems(1) s] Cons.IH r show ?case by blast
qed

lemma reachable_shape:
  assumes "reachable opts evs c"
  shows "shape_invariant (frames_of opts) c"
proof -
  from assms obtain c0 where n: "New opts = Inr c0" and r: "run evs c0 = Some c"
    by (auto simp: reachable_def split: sum.splits)
  have "frames_of opts = length (rollingWindow c0)" by (simp add: frames_of_def n)
  with New_shape_invariant [OF n] r show ?thesis
    by (auto dest: run_shape)
qed

text \<open>The three steps of the rotation, one after the other with nothing between them,
  are \<open>moveWindow\<close>.\<close>

lemma rotation_steps_are_moveWindow:
  assumes "renewFrame_at c = AfterStateCopy" "moveWindow c = Inr c'"
  shows "run [MoveWindowUnshift, MoveWindowDecr, MoveWindowAdd] c =
    Some (c'\<lparr>renewFrame_at := AtSelect\<rparr>)"
  using assms
  by (cases "rollingWindow c")
    (simp_all add: moveWindow_def unshiftFrame_def renewFrame_unshiftFrame_def
      renewFrame_decrSummary_def renewFrame_addFrame_def decrSummary_def addFrame_def Let_def)

section \<open>Proofs: the counts, but for the frame a rotation has still to subtract\<close>

lemmas rotating_defs = counts_invariant_rotating_def summed_frames_def sum_counts_def
  counts_consistent_def

lemma counts_invariant_rotating_idle:
  "frame_awaiting_decrSummary (renewFrame_at c) = [] \<Longrightarrow>
   counts_invariant_rotating c = counts_invariant c"
  by (simp add: counts_invariant_rotating_def summed_frames_def counts_invariant_def)

lemma HalfOpen_no_frame_awaiting:
  assumes "shape_invariant n c" "state c = HalfOpen"
  shows "frame_awaiting_decrSummary (renewFrame_at c) = []"
  using assms
  by (cases "renewFrame_at c") (auto simp: shape_invariant_def rotation_in_progress_def)

lemma New_counts_invariant_rotating:
  assumes "New opts = Inr c"
  shows "counts_invariant_rotating c"
proof -
  from assms have "renewFrame_at c = AtSelect" by (elim New_Inr)
  with New_counts_invariant [OF assms] show ?thesis
    by (simp add: counts_invariant_rotating_idle)
qed

lemma recordOutcome_counts_rotating:
  assumes "counts_invariant_rotating c" "recordOutcome out c = (r, c')"
  shows "counts_invariant_rotating c'"
proof (cases "rollingWindow c" rule: rev_cases)
  case Nil
  with assms show ?thesis by (simp add: recordOutcome_empty)
next
  case (snoc ys x)
  have s: "counts_invariant_rotating (projr (incrSuccess c))"
    using assms(1) snoc
    by (simp add: incrSuccess_snoc [OF snoc] rotating_defs sum_list_consistent)
  have f: "counts_invariant_rotating (projr (incrFail c))"
    using assms(1) snoc
    by (simp add: incrFail_snoc [OF snoc] rotating_defs sum_list_consistent)
  from assms(2) show ?thesis
    unfolding recordOutcome_snoc [OF snoc]
    using s f by (auto split: outcome.splits option.splits)
qed

lemma afterExecute_counts_rotating:
  assumes "shape_invariant n c" "counts_invariant_rotating c" "afterExecute c = (p, c')"
  shows "counts_invariant_rotating c'"
proof -
  consider (closed) "state c = Closed" | (halfopen) "state c = HalfOpen" | (opened) "state c = Open"
    using assms(1) by (auto simp: shape_invariant_def)
  then show ?thesis
  proof cases
    case closed
    with assms show ?thesis
      by (auto simp: afterExecute_def counts_invariant_rotating_def summed_frames_def
          go_waitHalfOpen_def split: if_splits)
  next
    case opened
    with assms show ?thesis by (simp add: afterExecute_def)
  next
    case halfopen
    from shape_HalfOpen_two_frames [OF assms(1) halfopen]
    obtain ys y x where w: "rollingWindow c = ys @ [y, x]" by blast
    then have w': "rollingWindow c = (ys @ [y]) @ [x]" by simp
    have idle: "frame_awaiting_decrSummary (renewFrame_at c) = []"
      by (rule HalfOpen_no_frame_awaiting [OF assms(1) halfopen])
    with assms(2) have ci: "counts_invariant c" by (simp add: counts_invariant_rotating_idle)
    let ?o = "(go_waitHalfOpen c)\<lparr>state := Open\<rparr>"
    have wo: "rollingWindow ?o = (ys @ [y]) @ [x]"
      using w by (simp add: go_waitHalfOpen_def)
    have wc: "rollingWindow (c\<lparr>state := Closed\<rparr>) = ys @ [y, x]"
      using w by simp
    have pop: "popWindow ?o = Inr (decrSummary x (?o\<lparr>rollingWindow := ys @ [y]\<rparr>))"
      by (rule popWindow_snoc [OF wo])
    have "counts_invariant ?o" using ci by simp
    from decrSummary_pop_counts [OF this wo]
    have "counts_invariant (decrSummary x (?o\<lparr>rollingWindow := ys @ [y]\<rparr>))" .
    moreover have "frame_awaiting_decrSummary
        (renewFrame_at (decrSummary x (?o\<lparr>rollingWindow := ys @ [y]\<rparr>))) = []"
      using idle by (simp add: decrSummary_def Let_def go_waitHalfOpen_def)
    ultimately have pop_counts:
      "counts_invariant_rotating (decrSummary x (?o\<lparr>rollingWindow := ys @ [y]\<rparr>))"
      by (simp add: counts_invariant_rotating_idle)
    have agg: "aggregateHalfOpenFrame (c\<lparr>state := Closed\<rparr>) =
      (None, c\<lparr>state := Closed, rollingWindow :=
                 ys @ [y\<lparr>Total := Total y + Total x,
                          Success := Success y + Success x,
                          Fail := Fail y + Fail x\<rparr>]\<rparr>)"
      using aggregateHalfOpenFrame_snoc [OF wc] by simp
    have "counts_invariant (c\<lparr>state := Closed\<rparr>)" using ci by simp
    from aggregate_counts_snoc [OF this wc]
    have "counts_invariant (c\<lparr>state := Closed, rollingWindow :=
                 ys @ [y\<lparr>Total := Total y + Total x,
                          Success := Success y + Success x,
                          Fail := Fail y + Fail x\<rparr>]\<rparr>)" by simp
    with idle have agg_counts: "counts_invariant_rotating (c\<lparr>state := Closed, rollingWindow :=
                 ys @ [y\<lparr>Total := Total y + Total x,
                          Success := Success y + Success x,
                          Fail := Fail y + Fail x\<rparr>]\<rparr>)"
      by (simp add: counts_invariant_rotating_idle)
    from assms(3) show ?thesis
      unfolding afterExecute_def currentFrameCopy_snoc [OF w'] Let_def
      using halfopen assms(2) pop pop_counts agg agg_counts
      by (auto split: if_splits)
  qed
qed

lemma Execute_counts_rotating:
  assumes "shape_invariant n c" "counts_invariant_rotating c" "Execute fn c w = (r, c', w')"
  shows "counts_invariant_rotating c'"
proof (cases "canExecute c")
  case (Some err)
  obtain p c1 where a: "afterExecute c = (p, c1)" by (cases "afterExecute c")
  from afterExecute_counts_rotating [OF assms(1,2) a] assms(3) Some a show ?thesis
    by (auto simp: Execute_def runDeferredAfterExecute_def split: option.splits)
next
  case None
  obtain out w1 where f: "fn w = (out, w1)" by (cases "fn w")
  obtain r1 c1 where ro: "recordOutcome out c = (r1, c1)" by (cases "recordOutcome out c")
  obtain p c2 where a: "afterExecute c1 = (p, c2)" by (cases "afterExecute c1")
  from recordOutcome_shape [OF assms(1) ro]
  have "shape_invariant n c1" by simp
  from afterExecute_counts_rotating [OF this recordOutcome_counts_rotating [OF assms(2) ro] a]
    assms(3) None f ro a
  show ?thesis
    by (auto simp: Execute_def runDeferredAfterExecute_def split: option.splits)
qed

lemma step_counts_rotating:
  assumes "shape_invariant n c" "counts_invariant_rotating c" "step ev c = Some c'"
  shows "counts_invariant_rotating c'"
proof (cases ev)
  case (Call out)
  obtain r c1 w1 where e: "Execute (\<lambda>w. (out, w)) c () = (r, c1, w1)"
    by (cases "Execute (\<lambda>w. (out, w)) c ()") auto
  from Execute_counts_rotating [OF assms(1,2) e] assms(3) Call e show ?thesis by simp
next
  case (CallCounted out)
  obtain r c1 where e: "recordOutcome out c = (r, c1)" by (cases "recordOutcome out c")
  from recordOutcome_counts_rotating [OF assms(2) e] assms(3) CallCounted e
  show ?thesis by simp
next
  case CallDeferred
  obtain p c1 where e: "afterExecute c = (p, c1)" by (cases "afterExecute c")
  from afterExecute_counts_rotating [OF assms(1,2) e] assms(3) CallDeferred e
  show ?thesis by simp
next
  case FrameElapsed
  with assms(2,3) show ?thesis
    by (auto simp: renewFrame_elapsed_def counts_invariant_rotating_def summed_frames_def
        split: if_splits)
next
  case MoveWindowUnshift
  with assms(2,3) show ?thesis
    by (cases "rollingWindow c")
      (auto simp: renewFrame_unshiftFrame_def unshiftFrame_def counts_invariant_rotating_def
        summed_frames_def split: if_splits)
next
  case MoveWindowDecr
  with assms(2,3) show ?thesis
    by (auto simp: renewFrame_decrSummary_def decrSummary_def Let_def rotating_defs
        sum_list_consistent split: renewFrame_pc.splits)
next
  case MoveWindowAdd
  with assms(2,3) show ?thesis
    by (auto simp: renewFrame_addFrame_def addFrame_def rotating_defs Counts_zero_def
        split: if_splits)
next
  case Cancel
  with assms(2,3) show ?thesis
    by (auto simp: renewFrame_cancel_def counts_invariant_rotating_def summed_frames_def
        split: if_splits)
next
  case TimerBegin
  with assms(2,3) show ?thesis
    by (auto simp: waitHalfOpen_begin_def counts_invariant_rotating_def summed_frames_def
        split: if_splits)
next
  case TimerFire
  with assms(2,3) show ?thesis
    by (auto simp: waitHalfOpen_fire_def addFrame_def rotating_defs Counts_zero_def
        split: if_splits)
next
  case TimerEnd
  with assms(2,3) show ?thesis
    by (auto simp: waitHalfOpen_end_def counts_invariant_rotating_def summed_frames_def
        split: if_splits)
qed

lemma run_counts_rotating:
  "shape_invariant n c \<Longrightarrow> counts_invariant_rotating c \<Longrightarrow> run evs c = Some c' \<Longrightarrow>
   counts_invariant_rotating c'"
proof (induction evs arbitrary: c)
  case Nil
  then show ?case by simp
next
  case (Cons ev evs)
  from Cons.prems(3) obtain c1 where s: "step ev c = Some c1" and r: "run evs c1 = Some c'"
    by (auto split: option.splits)
  from step_shape [OF Cons.prems(1) s] step_counts_rotating [OF Cons.prems(1,2) s] Cons.IH r
  show ?case by blast
qed

lemma reachable_counts_rotating:
  assumes "reachable opts evs c"
  shows "counts_invariant_rotating c"
proof -
  from assms obtain c0 where n: "New opts = Inr c0" and r: "run evs c0 = Some c"
    by (auto simp: reachable_def split: sum.splits)
  from New_shape_invariant [OF n] New_counts_invariant_rotating [OF n] r show ?thesis
    by (rule run_counts_rotating)
qed

lemma reachable_counts_invariant_outside_gap:
  assumes "reachable opts evs c" "frame_awaiting_decrSummary (renewFrame_at c) = []"
  shows "counts_invariant c"
  using reachable_counts_rotating [OF assms(1)] assms(2)
  by (simp add: counts_invariant_rotating_idle)

section \<open>Evaluating the fixtures\<close>

lemmas eval_defs = Execute_def canExecute_def runDeferredAfterExecute_def recordOutcome_def
  recoverHandler_def incrFail_def incrSuccess_def afterExecute_def summaryCopy_def
  currentFrameCopy_def popWindow_def popFrame_def decrSummary_def aggregateHalfOpenFrame_def
  go_waitHalfOpen_def Let_def Counts_zero_def test_breaker_def
  renewFrame_elapsed_def renewFrame_cancel_def moveWindow_def unshiftFrame_def addFrame_def
  renewFrame_unshiftFrame_def renewFrame_decrSummary_def renewFrame_addFrame_def stateCopy_def
  rotation_in_progress_def frames_taken_off_def
  waitHalfOpen_begin_def waitHalfOpen_fire_def waitHalfOpen_end_def fixtureCircuitCall_def
  countingCall_def errCall_def one_frame_breaker_def

lemma New_test_options:
  "New test_options =
     Inr (test_breaker defaultFromHalfOpenToState Closed False
            [Counts_zero, Counts_zero, Counts_zero] Counts_zero 0 0 0)"
  by (simp add: New_def test_options_def default_options_def go_div_def test_breaker_def
      time_Second_def numeral_3_eq_3)

lemma defaultCanTrip_small: "Total s \<le> 10 \<Longrightarrow> defaultCanTrip s = False"
  by (simp add: defaultCanTrip_def not_less [symmetric])

lemma New_one_frame_options:
  "New one_frame_options = Inr (one_frame_breaker [Counts_zero] Counts_zero AtSelect)"
  by (simp add: New_def one_frame_options_def default_options_def go_div_def
      one_frame_breaker_def time_Second_def)

lemma run_call_and_unshiftFrame:
  "run [Call (Returns None), FrameElapsed, MoveWindowUnshift]
     (one_frame_breaker [Counts_zero] Counts_zero AtSelect)
   = Some (one_frame_breaker [] \<lparr>Total = 1, Fail = 0, Success = 1\<rparr>
       (AfterUnshiftFrame \<lparr>Total = 1, Fail = 0, Success = 1\<rparr>))"
  by (simp add: eval_defs defaultCanTrip_small)

lemma run_call_two_rotations_and_unshiftFrame:
  "run [Call (Returns None),
        FrameElapsed, MoveWindowUnshift, MoveWindowDecr, MoveWindowAdd,
        FrameElapsed, MoveWindowUnshift, MoveWindowDecr, MoveWindowAdd,
        FrameElapsed, MoveWindowUnshift]
     (test_breaker defaultFromHalfOpenToState Closed False
        [Counts_zero, Counts_zero, Counts_zero] Counts_zero 0 0 0)
   = Some ((test_breaker defaultFromHalfOpenToState Closed False
        [Counts_zero, Counts_zero] \<lparr>Total = 1, Fail = 0, Success = 1\<rparr> 0 0 0)
        \<lparr>renewFrame_at := AfterUnshiftFrame \<lparr>Total = 1, Fail = 0, Success = 1\<rparr>\<rparr>)"
  by (simp add: eval_defs defaultCanTrip_small)

text \<open>
  C1 fails on the code. \<open>moveWindow\<close> takes the oldest frame off the window in one locked
  section (\<open>unshiftFrame\<close>) and subtracts it from the summary in another
  (\<open>decrSummary\<close>); between the two the summary still holds the counts of a frame that
  is in the window no more. A breaker of one frame that has counted one success is,
  after \<open>unshiftFrame\<close> of its first rotation, in a reachable state with an empty
  window and a summary of one call; a breaker of three frames is, after \<open>unshiftFrame\<close>
  of its third rotation, in a reachable state with two empty frames and a summary of one
  call. \<open>incrSuccess\<close> and \<open>incrFail\<close> change the window and the summary under both
  locks at once. In the reachable states where no frame waits for \<open>decrSummary\<close> both
  equalities hold (\<open>reachable_counts_invariant_outside_gap\<close>).
\<close>

theorem rotation_gap_breaks_summary_sum:
  "reachable one_frame_options [Call (Returns None), FrameElapsed, MoveWindowUnshift]
     (one_frame_breaker [] \<lparr>Total = 1, Fail = 0, Success = 1\<rparr>
        (AfterUnshiftFrame \<lparr>Total = 1, Fail = 0, Success = 1\<rparr>)) \<and>
   summary (one_frame_breaker [] \<lparr>Total = 1, Fail = 0, Success = 1\<rparr>
        (AfterUnshiftFrame \<lparr>Total = 1, Fail = 0, Success = 1\<rparr>)) =
     \<lparr>Total = 1, Fail = 0, Success = 1\<rparr> \<and>
   sum_counts (rollingWindow (one_frame_breaker [] \<lparr>Total = 1, Fail = 0, Success = 1\<rparr>
        (AfterUnshiftFrame \<lparr>Total = 1, Fail = 0, Success = 1\<rparr>))) =
     \<lparr>Total = 0, Fail = 0, Success = 0\<rparr> \<and>
   \<not> counts_invariant (one_frame_breaker [] \<lparr>Total = 1, Fail = 0, Success = 1\<rparr>
        (AfterUnshiftFrame \<lparr>Total = 1, Fail = 0, Success = 1\<rparr>)) \<and>
   reachable test_options
     [Call (Returns None),
      FrameElapsed, MoveWindowUnshift, MoveWindowDecr, MoveWindowAdd,
      FrameElapsed, MoveWindowUnshift, MoveWindowDecr, MoveWindowAdd,
      FrameElapsed, MoveWindowUnshift]
     ((test_breaker defaultFromHalfOpenToState Closed False
        [Counts_zero, Counts_zero] \<lparr>Total = 1, Fail = 0, Success = 1\<rparr> 0 0 0)
        \<lparr>renewFrame_at := AfterUnshiftFrame \<lparr>Total = 1, Fail = 0, Success = 1\<rparr>\<rparr>) \<and>
   \<not> counts_invariant
     ((test_breaker defaultFromHalfOpenToState Closed False
        [Counts_zero, Counts_zero] \<lparr>Total = 1, Fail = 0, Success = 1\<rparr> 0 0 0)
        \<lparr>renewFrame_at := AfterUnshiftFrame \<lparr>Total = 1, Fail = 0, Success = 1\<rparr>\<rparr>)"
proof -
  have "reachable one_frame_options [Call (Returns None), FrameElapsed, MoveWindowUnshift]
     (one_frame_breaker [] \<lparr>Total = 1, Fail = 0, Success = 1\<rparr>
        (AfterUnshiftFrame \<lparr>Total = 1, Fail = 0, Success = 1\<rparr>))"
    by (simp add: reachable_def New_one_frame_options run_call_and_unshiftFrame
        del: run.simps)
  moreover have "reachable test_options
     [Call (Returns None),
      FrameElapsed, MoveWindowUnshift, MoveWindowDecr, MoveWindowAdd,
      FrameElapsed, MoveWindowUnshift, MoveWindowDecr, MoveWindowAdd,
      FrameElapsed, MoveWindowUnshift]
     ((test_breaker defaultFromHalfOpenToState Closed False
        [Counts_zero, Counts_zero] \<lparr>Total = 1, Fail = 0, Success = 1\<rparr> 0 0 0)
        \<lparr>renewFrame_at := AfterUnshiftFrame \<lparr>Total = 1, Fail = 0, Success = 1\<rparr>\<rparr>)"
    by (simp add: reachable_def New_test_options run_call_two_rotations_and_unshiftFrame
        del: run.simps)
  ultimately show ?thesis
    by (simp add: one_frame_breaker_def test_breaker_def counts_invariant_def sum_counts_def
        Counts_zero_def)
qed

text \<open>
  C5. Whenever the state is \<open>Open\<close>, \<open>Execute\<close> returns the open-circuit error, the
  breaker is left as it was (no frame, no summary counter, nothing else changes), and
  the wrapped call is not made: the world it acts on is left as it was, whatever the
  call would have done.
\<close>

theorem Execute_Open_rejected:
  "state c = Open \<Longrightarrow> Execute fn c w = (Returned (Some ErrOpenCircuit), c, w)"
  by (simp add: Execute_def canExecute_def runDeferredAfterExecute_def afterExecute_def)

theorem Execute_Open_rejected_witness:
  "state (test_breaker defaultFromHalfOpenToState Open True
       [Counts_zero, Counts_zero, \<lparr>Total = 11, Fail = 7, Success = 4\<rparr>]
       \<lparr>Total = 11, Fail = 7, Success = 4\<rparr> 0 1 0) = Open \<and>
   Execute (countingCall None)
     (test_breaker defaultFromHalfOpenToState Open True
       [Counts_zero, Counts_zero, \<lparr>Total = 11, Fail = 7, Success = 4\<rparr>]
       \<lparr>Total = 11, Fail = 7, Success = 4\<rparr> 0 1 0) 0 =
   (Returned (Some ErrOpenCircuit),
    test_breaker defaultFromHalfOpenToState Open True
       [Counts_zero, Counts_zero, \<lparr>Total = 11, Fail = 7, Success = 4\<rparr>]
       \<lparr>Total = 11, Fail = 7, Success = 4\<rparr> 0 1 0, 0)"
proof -
  have s: "state (test_breaker defaultFromHalfOpenToState Open True
       [Counts_zero, Counts_zero, \<lparr>Total = 11, Fail = 7, Success = 4\<rparr>]
       \<lparr>Total = 11, Fail = 7, Success = 4\<rparr> 0 1 0) = Open"
    by (simp add: test_breaker_def)
  from s Execute_Open_rejected [OF s, of "countingCall None" 0] show ?thesis by simp
qed

text \<open>
  C6. \<open>defaultFromHalfOpenToState\<close> returns \<open>Open\<close> for every probe count with a
  failure, \<open>Closed\<close> for a count without failure whose total is above 100, and
  \<open>HalfOpen\<close> for a count without failure whose total is at most 100.
\<close>

theorem defaultFromHalfOpenToState_cases:
  "(0 < Fail c \<longrightarrow> defaultFromHalfOpenToState c = Open) \<and>
   (Fail c = 0 \<and> 100 < Total c \<longrightarrow> defaultFromHalfOpenToState c = Closed) \<and>
   (Fail c = 0 \<and> Total c \<le> 100 \<longrightarrow> defaultFromHalfOpenToState c = HalfOpen)"
  by (simp add: defaultFromHalfOpenToState_def not_less [symmetric])

theorem defaultFromHalfOpenToState_cases_witness:
  "defaultFromHalfOpenToState \<lparr>Total = 3, Fail = 2, Success = 1\<rparr> = Open \<and>
   defaultFromHalfOpenToState \<lparr>Total = 101, Fail = 0, Success = 101\<rparr> = Closed \<and>
   defaultFromHalfOpenToState \<lparr>Total = 100, Fail = 0, Success = 100\<rparr> = HalfOpen"
  using defaultFromHalfOpenToState_cases [of "\<lparr>Total = 3, Fail = 2, Success = 1\<rparr>"]
    defaultFromHalfOpenToState_cases [of "\<lparr>Total = 101, Fail = 0, Success = 101\<rparr>"]
    defaultFromHalfOpenToState_cases [of "\<lparr>Total = 100, Fail = 0, Success = 100\<rparr>"]
  by simp

text \<open>C6 as stated fails: a single clean success (\<open>Fail = 0\<close>, \<open>Success = 1\<close>,
  \<open>Total = 1\<close>) is answered with \<open>HalfOpen\<close>, not \<open>Closed\<close>.\<close>

theorem single_clean_success_stays_HalfOpen:
  "defaultFromHalfOpenToState \<lparr>Total = 1, Fail = 0, Success = 1\<rparr> = HalfOpen \<and>
   defaultFromHalfOpenToState \<lparr>Total = 1, Fail = 0, Success = 1\<rparr> \<noteq> Closed"
  by (simp add: defaultFromHalfOpenToState_def)

section \<open>Proofs: conversion of a count to float64\<close>

lemma bit_length_0 [simp]: "bit_length 0 = 0"
  by (simp add: bit_length.simps)

lemma bit_length_pos: "0 < n \<Longrightarrow> bit_length n = Suc (bit_length (n div 2))"
  by (subst bit_length.simps) simp

lemma bit_length_1 [simp]: "bit_length (Suc 0) = Suc 0"
  by (simp add: bit_length_pos)

lemma pow2_bit_length_le: "0 < n \<Longrightarrow> 2 ^ (bit_length n - 1) \<le> n"
proof (induction n rule: bit_length.induct)
  case (1 n)
  show ?case
  proof (cases "n div 2 = 0")
    case True
    with 1(2) have "n = 1" by (simp add: div_eq_0_iff)
    then show ?thesis by simp
  next
    case False
    with 1 have ih: "2 ^ (bit_length (n div 2) - 1) \<le> n div 2" by simp
    from False have "bit_length (n div 2) = Suc (bit_length (n div 2 div 2))"
      by (simp add: bit_length_pos)
    then have "(2::nat) ^ (bit_length n - 1) = 2 * 2 ^ (bit_length (n div 2) - 1)"
      using 1(2) by (simp add: bit_length_pos)
    also have "\<dots> \<le> 2 * (n div 2)" using ih by simp
    also have "\<dots> \<le> n" by simp
    finally show ?thesis .
  qed
qed

lemma bit_length_le: "n < 2 ^ j \<Longrightarrow> bit_length n \<le> j"
proof (cases "n = 0")
  case True
  then show ?thesis by simp
next
  case False
  assume "n < 2 ^ j"
  moreover from False have "2 ^ (bit_length n - 1) \<le> n" by (intro pow2_bit_length_le) simp
  ultimately have "(2::nat) ^ (bit_length n - 1) < 2 ^ j" by (rule le_less_trans [rotated])
  then have "bit_length n - 1 < j" by (rule power_less_imp_less_exp [rotated]) simp
  then show ?thesis by simp
qed

lemma round_half_even_bounds:
  "n div d \<le> round_half_even n d \<and> round_half_even n d \<le> n div d + 1"
  by (simp add: round_half_even_def Let_def)

lemma floor_log2_nat:
  assumes "0 < n"
  shows "floor_log2 n 1 = int (bit_length n) - 1"
proof -
  from assms have b: "0 < bit_length n" by (simp add: bit_length_pos)
  show ?thesis
  proof (cases "bit_length n = 1")
    case True
    with assms show ?thesis by (simp add: floor_log2_def scale2_def)
  next
    case False
    with b have "\<not> 0 \<le> - (int (bit_length n) - 1)" by simp
    moreover have "nat (int (bit_length n) - 1) = bit_length n - 1" by simp
    ultimately show ?thesis
      using pow2_bit_length_le [OF assms] by (simp add: floor_log2_def scale2_def)
  qed
qed

lemma float64_of_uint64_nonzero:
  assumes "w \<noteq> 0"
  shows "\<exists>m e. float64_of_uint64 w = Fin m e \<and> 0 < m"
proof -
  let ?n = "unat w"
  let ?k = "int (bit_length ?n) - 1"
  from assms have n: "0 < ?n" by (simp add: unat_gt_0)
  have "?n < 2 ^ 64" using unsigned_less [of w, where 'a = nat] by simp
  then have bl: "bit_length ?n \<le> 64" by (rule bit_length_le)
  from n have blp: "0 < bit_length ?n" by (simp add: bit_length_pos)
  have e: "max (floor_log2 ?n 1 + 0) (- 1022) = ?k"
    unfolding floor_log2_nat [OF n] using blp by simp
  obtain n' d' where sc: "scale2 ?n 1 (0 + 52 - ?k) = (n', d')"
    by (cases "scale2 ?n 1 (0 + 52 - ?k)")
  let ?m = "round_half_even n' d'"
  have m: "0 < ?m \<and> ?m < 2 ^ 117"
  proof (cases "0 \<le> 0 + 52 - ?k")
    case True
    with sc have nd: "n' = ?n * 2 ^ nat (52 - ?k)" "d' = 1" by (auto simp: scale2_def)
    have "nat (52 - ?k) \<le> 52" using blp by simp
    then have "(2::nat) ^ nat (52 - ?k) \<le> 2 ^ 52" by (rule power_increasing) simp
    with \<open>?n < 2 ^ 64\<close> have "?n * 2 ^ nat (52 - ?k) < 2 ^ 64 * 2 ^ 52"
      by (rule mult_less_le_imp_less) simp_all
    with n show ?thesis by (simp add: nd round_half_even_def)
  next
    case False
    with sc have nd: "n' = ?n" "d' = 2 ^ nat (?k - 52)" by (auto simp: scale2_def)
    from False have "nat (?k - 52) \<le> bit_length ?n - 1" by simp
    then have "(2::nat) ^ nat (?k - 52) \<le> 2 ^ (bit_length ?n - 1)"
      by (rule power_increasing) simp
    also note pow2_bit_length_le [OF n]
    finally have "d' \<le> n'" by (simp add: nd)
    moreover have "0 < d'" by (simp add: nd)
    ultimately have "0 < n' div d'" by (simp add: div_greater_zero_iff)
    with round_half_even_bounds [of n' d'] have low: "0 < ?m" by linarith
    from round_half_even_bounds [of n' d'] div_le_dividend [of n' d']
    have "?m \<le> n' + 1" by linarith
    also have "\<dots> < 2 ^ 117" using \<open>?n < 2 ^ 64\<close> by (simp add: nd)
    finally show ?thesis using low by simp
  qed
  then have "bit_length ?m \<le> 117" by (intro bit_length_le) simp
  with bl have "\<not> 1024 < int (bit_length ?m) + (?k - 52)" by simp
  with n m show ?thesis
    unfolding float64_of_uint64_def round_float64_def e Let_def sc
    by simp
qed

section \<open>Proofs: the default trip policy on given counts\<close>

lemmas float64_eval = float64_of_uint64_def round_float64_def floor_log2_def scale2_def
  round_half_even_def bit_length.simps Let_def

lemma float64_of_uint64_7: "float64_of_uint64 7 = Fin 7881299347898368 (- 50)"
  by (simp add: float64_eval)

lemma float64_of_uint64_11: "float64_of_uint64 11 = Fin 6192449487634432 (- 49)"
  by (simp add: float64_eval)

lemma float64_div_7_11:
  "float64_div (Fin 7881299347898368 (- 50)) (Fin 6192449487634432 (- 49)) =
   Fin 5731854071198813 (- 53)"
  by (simp add: float64_eval)

lemma float64_mul_7_11_100:
  "float64_mul (Fin 5731854071198813 (- 53)) (Fin 100 0) = Fin 8956021986248145 (- 47)"
  by (simp add: float64_eval)

lemma failRatioAtLeast60_7_of_11: "failRatioAtLeast60 \<lparr>Total = 11, Fail = 7, Success = 4\<rparr>"
  unfolding failRatioAtLeast60_def
  by (simp add: float64_of_uint64_7 float64_of_uint64_11 float64_div_7_11
      float64_mul_7_11_100 scale2_def del: float64_div.simps float64_mul.simps)

lemma defaultCanTrip_7_of_11: "defaultCanTrip \<lparr>Total = 11, Fail = 7, Success = 4\<rparr>"
  by (simp add: defaultCanTrip_def failRatioAtLeast60_7_of_11)

lemma failRatioAtLeast60_zero_total:
  "failRatioAtLeast60 \<lparr>Total = 0, Fail = 1, Success = 0\<rparr>"
  by (simp add: failRatioAtLeast60_def float64_eval)

text \<open>
  C10. \<open>defaultCanTrip\<close> gives a truth value for every \<open>Counts\<close>: with \<open>Total \<le> 10\<close> it
  is false whatever the ratio test would say, and when it is true then \<open>Total > 10\<close>,
  the ratio test holds and the divisor \<open>float64(Total)\<close> of the ratio is a finite
  number that is not zero.
\<close>

theorem defaultCanTrip_guard:
  "(Total c \<le> 10 \<longrightarrow> defaultCanTrip c = False) \<and>
   (defaultCanTrip c \<longrightarrow>
      10 < Total c \<and> failRatioAtLeast60 c \<and>
      (\<exists>m e. float64_of_uint64 (Total c) = Fin m e \<and> 0 < m))"
proof (intro conjI impI)
  assume "Total c \<le> 10"
  then show "defaultCanTrip c = False" by (rule defaultCanTrip_small)
next
  assume t: "defaultCanTrip c"
  then show gt: "10 < Total c" by (simp add: defaultCanTrip_def split: if_splits)
  from t show "failRatioAtLeast60 c" by (simp add: defaultCanTrip_def split: if_splits)
  from gt have "Total c \<noteq> 0" by auto
  then show "\<exists>m e. float64_of_uint64 (Total c) = Fin m e \<and> 0 < m"
    by (rule float64_of_uint64_nonzero)
qed

theorem defaultCanTrip_guard_witness:
  "Total \<lparr>Total = 0, Fail = 1, Success = 0\<rparr> \<le> 10 \<and>
   failRatioAtLeast60 \<lparr>Total = 0, Fail = 1, Success = 0\<rparr> \<and>
   defaultCanTrip \<lparr>Total = 0, Fail = 1, Success = 0\<rparr> = False \<and>
   defaultCanTrip \<lparr>Total = 11, Fail = 7, Success = 4\<rparr> \<and>
   10 < Total \<lparr>Total = 11, Fail = 7, Success = 4\<rparr> \<and>
   failRatioAtLeast60 \<lparr>Total = 11, Fail = 7, Success = 4\<rparr> \<and>
   float64_of_uint64 (Total \<lparr>Total = 11, Fail = 7, Success = 4\<rparr>) = Fin 6192449487634432 (- 49)"
  using defaultCanTrip_guard [of "\<lparr>Total = 0, Fail = 1, Success = 0\<rparr>"]
    defaultCanTrip_guard [of "\<lparr>Total = 11, Fail = 7, Success = 4\<rparr>"]
    failRatioAtLeast60_zero_total defaultCanTrip_7_of_11
  by (simp add: float64_of_uint64_11)

section \<open>Proofs: what Execute does to an admitted call\<close>

lemma recordOutcome_nonempty:
  assumes "rollingWindow c \<noteq> []"
  shows "recordOutcome out c = (spec_result out, spec_recordOutcome out c)"
proof -
  from assms obtain ys x where w: "rollingWindow c = ys @ [x]"
    by (cases "rollingWindow c" rule: rev_cases) auto
  show ?thesis
    by (simp add: recordOutcome_def recoverHandler_def incrFail_snoc [OF w]
        incrSuccess_snoc [OF w] spec_result_def spec_recordOutcome_def spec_add_outcome_def w
        split: outcome.splits option.splits)
qed

lemma spec_recordOutcome_fields [simp]:
  "state (spec_recordOutcome out c) = state c"
  "canTrip (spec_recordOutcome out c) = canTrip c"
  "fromHalfOpenToState (spec_recordOutcome out c) = fromHalfOpenToState c"
  "onHalfOpenTimeout (spec_recordOutcome out c) = onHalfOpenTimeout c"
  "summary (spec_recordOutcome out c) = spec_add_outcome out (summary c)"
  "rollingWindow (spec_recordOutcome out c) \<noteq> []"
  "armed_timers (spec_recordOutcome out c) = armed_timers c"
  by (simp_all add: spec_recordOutcome_def armed_timers_def)

lemma Execute_admitted:
  assumes "state c \<noteq> Open" "rollingWindow c \<noteq> []" "fn w = (out, w')"
  shows "Execute fn c w =
     (case afterExecute (spec_recordOutcome out c) of
        (Some p, c') \<Rightarrow> (Panicked p, c', w')
      | (None, c') \<Rightarrow> (spec_result out, c', w'))"
  using assms
  by (simp add: Execute_def canExecute_def runDeferredAfterExecute_def
      recordOutcome_nonempty split: prod.splits option.splits)

lemma afterExecute_Closed:
  "state c = Closed \<Longrightarrow>
   afterExecute c =
     (None, if canTrip c (summary c) then go_waitHalfOpen (c\<lparr>state := Open\<rparr>) else c)"
  by (simp add: afterExecute_def summaryCopy_def)

lemma Execute_Closed:
  assumes "state c = Closed" "rollingWindow c \<noteq> []" "fn w = (out, w')"
  shows "Execute fn c w =
     (spec_result out,
      (if canTrip c (spec_add_outcome out (summary c))
       then go_waitHalfOpen ((spec_recordOutcome out c)\<lparr>state := Open\<rparr>)
       else spec_recordOutcome out c),
      w')"
  using assms by (simp add: Execute_admitted afterExecute_Closed)

section \<open>Proofs: feeding calls to a closed breaker\<close>

lemma syncFeed_append:
  "syncFeedCircuitBreakerHelper cb (xs @ ys) =
     (case syncFeedCircuitBreakerHelper cb xs of
        Inl p \<Rightarrow> Inl p
      | Inr cb' \<Rightarrow> syncFeedCircuitBreakerHelper cb' ys)"
  by (induction xs arbitrary: cb) (auto split: prod.splits exec_result.splits)

lemma spec_add_outcome_Total [simp]:
  "Total (spec_add_outcome out s) = Total s + 1"
  by (simp add: spec_add_outcome_def split: outcome.splits option.splits)

lemma unat_Total_Suc: "unat (t :: uint64) < 10 \<Longrightarrow> unat (t + 1) = Suc (unat t)"
  by (simp add: unat_word_ariths)

lemma syncFeed_no_trip:
  assumes "state cb = Closed" "rollingWindow cb \<noteq> []" "canTrip cb = defaultCanTrip"
    "unat (Total (summary cb)) + length calls \<le> 10"
  shows "\<exists>cb'. syncFeedCircuitBreakerHelper cb calls = Inr cb' \<and>
     state cb' = Closed \<and> rollingWindow cb' \<noteq> [] \<and> canTrip cb' = defaultCanTrip \<and>
     armed_timers cb' = armed_timers cb \<and>
     summary cb' = foldl (\<lambda>s err. spec_add_outcome (Returns err) s) (summary cb) calls"
  using assms
proof (induction calls arbitrary: cb)
  case Nil
  then show ?case by simp
next
  case (Cons err calls)
  let ?cb1 = "spec_recordOutcome (Returns err) cb"
  from Cons.prems(4) have lt: "unat (Total (summary cb)) < 10" by simp
  then have u: "unat (Total (summary ?cb1)) = Suc (unat (Total (summary cb)))"
    by (simp add: unat_Total_Suc)
  with Cons.prems(4) have "unat (Total (summary ?cb1)) \<le> 10" by simp
  then have "Total (summary ?cb1) \<le> 10" by (simp add: word_le_nat_alt)
  then have no: "\<not> defaultCanTrip (spec_add_outcome (Returns err) (summary cb))"
    using defaultCanTrip_small by simp
  have e: "Execute (fixtureCircuitCall err) cb () = (Returned err, ?cb1, ())"
    using Execute_Closed [OF Cons.prems(1,2), of "fixtureCircuitCall err" "()" "Returns err" "()"]
      no Cons.prems(3)
    by (simp add: fixtureCircuitCall_def spec_result_def)
  have "\<exists>cb'. syncFeedCircuitBreakerHelper ?cb1 calls = Inr cb' \<and>
     state cb' = Closed \<and> rollingWindow cb' \<noteq> [] \<and> canTrip cb' = defaultCanTrip \<and>
     armed_timers cb' = armed_timers ?cb1 \<and>
     summary cb' = foldl (\<lambda>s err. spec_add_outcome (Returns err) s) (summary ?cb1) calls"
    using Cons.prems u by (intro Cons.IH) simp_all
  then show ?case by (simp add: e)
qed

lemma New_fresh:
  assumes "New opts = Inr cb"
  shows "state cb = Closed" "rollingWindow cb \<noteq> []" "summary cb = Counts_zero"
    "armed_timers cb = 0"
  using assms by (auto elim!: New_Inr simp: armed_timers_def)

text \<open>
  C4. A breaker that \<open>New\<close> returns with the default trip policy is fed seven calls
  that fail and then four that succeed, one after the other: after every prefix of at
  most ten calls it is \<open>Closed\<close>; after the eleventh it is \<open>Open\<close> with summary 11/7/4
  and one \<open>waitHalfOpen\<close> goroutine started; and a twelfth call gets the open-circuit
  error, is not made, and changes nothing.
\<close>

theorem default_policy_trips_on_eleventh_call:
  assumes "New opts = Inr cb" "canTrip cb = defaultCanTrip"
  shows
    "(\<forall>k\<le>10. \<exists>cb'.
        syncFeedCircuitBreakerHelper cb (take k (replicate 7 (Some e) @ replicate 4 None)) =
          Inr cb' \<and> state cb' = Closed) \<and>
     (\<exists>cb'.
        syncFeedCircuitBreakerHelper cb (replicate 7 (Some e) @ replicate 4 None) = Inr cb' \<and>
        state cb' = Open \<and> summary cb' = \<lparr>Total = 11, Fail = 7, Success = 4\<rparr> \<and>
        armed_timers cb' = 1 \<and>
        Execute fn cb' w = (Returned (Some ErrOpenCircuit), cb', w))"
proof (intro conjI allI impI)
  note fresh = New_fresh [OF assms(1)]
  have z: "unat (Total (summary cb)) = 0" by (simp add: fresh Counts_zero_def)
  {
    fix k :: nat
    assume "k \<le> 10"
    then have "unat (Total (summary cb)) +
        length (take k (replicate 7 (Some e) @ replicate 4 None)) \<le> 10"
      by (simp add: z)
    from syncFeed_no_trip [OF fresh(1,2) assms(2) this]
    show "\<exists>cb'. syncFeedCircuitBreakerHelper cb
        (take k (replicate 7 (Some e) @ replicate 4 None)) = Inr cb' \<and> state cb' = Closed"
      by blast
  }
  have split: "replicate 7 (Some e) @ replicate 4 None =
      (replicate 7 (Some e) @ replicate 3 None) @ [None]"
    by (simp add: numeral_eq_Suc)
  have "unat (Total (summary cb)) + length (replicate 7 (Some e) @ replicate 3 None) \<le> 10"
    by (simp add: z)
  from syncFeed_no_trip [OF fresh(1,2) assms(2) this]
  obtain cb10 where f10:
    "syncFeedCircuitBreakerHelper cb (replicate 7 (Some e) @ replicate 3 None) = Inr cb10"
    and s10: "state cb10 = Closed" "rollingWindow cb10 \<noteq> []" "canTrip cb10 = defaultCanTrip"
      "armed_timers cb10 = armed_timers cb"
    and sum10: "summary cb10 = foldl (\<lambda>s err. spec_add_outcome (Returns err) s) (summary cb)
        (replicate 7 (Some e) @ replicate 3 None)"
    by blast
  from sum10 have sum10': "summary cb10 = \<lparr>Total = 10, Fail = 7, Success = 3\<rparr>"
    by (simp add: fresh Counts_zero_def numeral_eq_Suc spec_add_outcome_def)
  let ?cb11 = "go_waitHalfOpen ((spec_recordOutcome (Returns None) cb10)\<lparr>state := Open\<rparr>)"
  have trip: "canTrip cb10 (spec_add_outcome (Returns None) (summary cb10))"
    by (simp add: s10 sum10' spec_add_outcome_def defaultCanTrip_7_of_11)
  have e11: "Execute (fixtureCircuitCall None) cb10 () = (Returned None, ?cb11, ())"
    using Execute_Closed [OF s10(1,2), of "fixtureCircuitCall None" "()" "Returns None" "()"] trip
    by (simp add: fixtureCircuitCall_def spec_result_def)
  have "syncFeedCircuitBreakerHelper cb ((replicate 7 (Some e) @ replicate 3 None) @ [None]) =
      syncFeedCircuitBreakerHelper cb10 [None]"
    by (subst syncFeed_append) (simp add: f10)
  moreover have "syncFeedCircuitBreakerHelper cb10 [None] = Inr ?cb11"
    by (simp add: e11)
  ultimately
  have f11: "syncFeedCircuitBreakerHelper cb (replicate 7 (Some e) @ replicate 4 None) = Inr ?cb11"
    by (simp only: split)
  have o: "state ?cb11 = Open" by (simp add: go_waitHalfOpen_def)
  have "summary ?cb11 = \<lparr>Total = 11, Fail = 7, Success = 4\<rparr>"
    by (simp add: go_waitHalfOpen_def sum10' spec_add_outcome_def)
  moreover have "armed_timers ?cb11 = 1"
    using s10(4) fresh(4) spec_recordOutcome_fields(7) [of "Returns None" cb10]
    by (simp add: go_waitHalfOpen_def armed_timers_def)
  moreover have "Execute fn ?cb11 w = (Returned (Some ErrOpenCircuit), ?cb11, w)"
    using o by (simp add: Execute_def canExecute_def runDeferredAfterExecute_def afterExecute_def)
  ultimately show "\<exists>cb'.
        syncFeedCircuitBreakerHelper cb (replicate 7 (Some e) @ replicate 4 None) = Inr cb' \<and>
        state cb' = Open \<and> summary cb' = \<lparr>Total = 11, Fail = 7, Success = 4\<rparr> \<and>
        armed_timers cb' = 1 \<and>
        Execute fn cb' w = (Returned (Some ErrOpenCircuit), cb', w)"
    using f11 o by blast
qed

lemma canTrip_test_breaker [simp]: "canTrip (test_breaker policy s b w sm k1 k2 k3) = defaultCanTrip"
  by (simp add: test_breaker_def)

lemma state_test_breaker [simp]: "state (test_breaker policy s b w sm k1 k2 k3) = s"
  by (simp add: test_breaker_def)

lemma seven_failures_four_successes:
  "replicate 7 (Some e) @ replicate 4 None =
     [Some e, Some e, Some e, Some e, Some e, Some e, Some e, None, None, None, None]"
  by (simp add: numeral_eq_Suc)

lemma feed_first_ten_test_calls:
  "syncFeedCircuitBreakerHelper
     (test_breaker defaultFromHalfOpenToState Closed False
        [Counts_zero, Counts_zero, Counts_zero] Counts_zero 0 0 0)
     (take 10 (replicate 7 (Some errCall) @ replicate 4 None)) =
   Inr (test_breaker defaultFromHalfOpenToState Closed False
        [Counts_zero, Counts_zero, \<lparr>Total = 10, Fail = 7, Success = 3\<rparr>]
        \<lparr>Total = 10, Fail = 7, Success = 3\<rparr> 0 0 0)"
  by (simp add: seven_failures_four_successes eval_defs defaultCanTrip_small)

lemma feed_test_calls:
  "syncFeedCircuitBreakerHelper
     (test_breaker defaultFromHalfOpenToState Closed False
        [Counts_zero, Counts_zero, Counts_zero] Counts_zero 0 0 0)
     (replicate 7 (Some errCall) @ replicate 4 None) =
   Inr (test_breaker defaultFromHalfOpenToState Open False
        [Counts_zero, Counts_zero, \<lparr>Total = 11, Fail = 7, Success = 4\<rparr>]
        \<lparr>Total = 11, Fail = 7, Success = 4\<rparr> 1 0 0)"
  by (simp add: seven_failures_four_successes eval_defs defaultCanTrip_small defaultCanTrip_7_of_11)


theorem default_policy_trips_on_eleventh_call_witness:
  "New test_options =
     Inr (test_breaker defaultFromHalfOpenToState Closed False
            [Counts_zero, Counts_zero, Counts_zero] Counts_zero 0 0 0) \<and>
   canTrip (test_breaker defaultFromHalfOpenToState Closed False
            [Counts_zero, Counts_zero, Counts_zero] Counts_zero 0 0 0) = defaultCanTrip \<and>
   syncFeedCircuitBreakerHelper
     (test_breaker defaultFromHalfOpenToState Closed False
        [Counts_zero, Counts_zero, Counts_zero] Counts_zero 0 0 0)
     (take 10 (replicate 7 (Some errCall) @ replicate 4 None)) =
   Inr (test_breaker defaultFromHalfOpenToState Closed False
        [Counts_zero, Counts_zero, \<lparr>Total = 10, Fail = 7, Success = 3\<rparr>]
        \<lparr>Total = 10, Fail = 7, Success = 3\<rparr> 0 0 0) \<and>
   syncFeedCircuitBreakerHelper
     (test_breaker defaultFromHalfOpenToState Closed False
        [Counts_zero, Counts_zero, Counts_zero] Counts_zero 0 0 0)
     (replicate 7 (Some errCall) @ replicate 4 None) =
   Inr (test_breaker defaultFromHalfOpenToState Open False
        [Counts_zero, Counts_zero, \<lparr>Total = 11, Fail = 7, Success = 4\<rparr>]
        \<lparr>Total = 11, Fail = 7, Success = 4\<rparr> 1 0 0) \<and>
   Execute (countingCall None)
     (test_breaker defaultFromHalfOpenToState Open False
        [Counts_zero, Counts_zero, \<lparr>Total = 11, Fail = 7, Success = 4\<rparr>]
        \<lparr>Total = 11, Fail = 7, Success = 4\<rparr> 1 0 0) 0 =
   (Returned (Some ErrOpenCircuit),
    test_breaker defaultFromHalfOpenToState Open False
        [Counts_zero, Counts_zero, \<lparr>Total = 11, Fail = 7, Success = 4\<rparr>]
        \<lparr>Total = 11, Fail = 7, Success = 4\<rparr> 1 0 0, 0)"
proof -
  let ?b0 = "test_breaker defaultFromHalfOpenToState Closed False
        [Counts_zero, Counts_zero, Counts_zero] Counts_zero 0 0 0"
  let ?b11 = "test_breaker defaultFromHalfOpenToState Open False
        [Counts_zero, Counts_zero, \<lparr>Total = 11, Fail = 7, Success = 4\<rparr>]
        \<lparr>Total = 11, Fail = 7, Success = 4\<rparr> 1 0 0"
  have p: "canTrip ?b0 = defaultCanTrip" by simp
  from default_policy_trips_on_eleventh_call [OF New_test_options p, of errCall "countingCall None" 0]
  have "Execute (countingCall None) ?b11 0 = (Returned (Some ErrOpenCircuit), ?b11, 0)"
    by (simp only: feed_test_calls) simp
  with p show ?thesis
    by (simp only: New_test_options feed_first_ten_test_calls feed_test_calls simp_thms)
qed

section \<open>Proofs: states the test breaker goes through\<close>

lemma run_append:
  "run (evs @ evs') c = (case run evs c of None \<Rightarrow> None | Some c' \<Rightarrow> run evs' c')"
  by (induction evs arbitrary: c) (auto split: option.splits)

lemma fixtureCircuitCall_Pair: "fixtureCircuitCall err = Pair (Returns err)"
  by (rule ext) (simp add: fixtureCircuitCall_def)

lemma run_calls_syncFeed:
  "syncFeedCircuitBreakerHelper cb calls = Inr cb' \<Longrightarrow>
   run (map (\<lambda>err. Call (Returns err)) calls) cb = Some cb'"
proof (induction calls arbitrary: cb)
  case Nil
  then show ?case by simp
next
  case (Cons err calls)
  then show ?case
    by (auto simp: fixtureCircuitCall_Pair split: prod.splits exec_result.splits)
qed

lemma reachable_step:
  "reachable opts evs c \<Longrightarrow> step ev c = Some c' \<Longrightarrow> reachable opts (evs @ [ev]) c'"
  by (auto simp: reachable_def run_append split: sum.splits)

lemma reachable_test_calls:
  "reachable test_options (map (\<lambda>err. Call (Returns err)) test_calls)
     (test_breaker defaultFromHalfOpenToState Open False
        [Counts_zero, Counts_zero, \<lparr>Total = 11, Fail = 7, Success = 4\<rparr>]
        \<lparr>Total = 11, Fail = 7, Success = 4\<rparr> 1 0 0)"
  using run_calls_syncFeed [OF feed_test_calls]
  by (simp add: reachable_def New_test_options test_calls_def del: run.simps)

lemma timer_steps_of_test_breaker:
  "step TimerBegin (test_breaker policy Open False w sm 1 0 0) =
     Some (test_breaker policy Open True w sm 0 1 0)"
  "step TimerFire (test_breaker policy Open True w sm 0 1 0) =
     Some (test_breaker policy HalfOpen True (w @ [Counts_zero]) sm 0 0 1)"
  "step TimerEnd (test_breaker policy HalfOpen True w sm 0 0 1) =
     Some (test_breaker policy HalfOpen False w sm 0 0 0)"
  by (simp_all add: eval_defs)

lemma reachable_test_HalfOpen:
  "reachable test_options
     (map (\<lambda>err. Call (Returns err)) test_calls @ [TimerBegin, TimerFire, TimerEnd])
     (test_breaker defaultFromHalfOpenToState HalfOpen False
        [Counts_zero, Counts_zero, \<lparr>Total = 11, Fail = 7, Success = 4\<rparr>, Counts_zero]
        \<lparr>Total = 11, Fail = 7, Success = 4\<rparr> 0 0 0)"
  using reachable_step [OF reachable_step [OF reachable_step [OF reachable_test_calls
    timer_steps_of_test_breaker(1)] timer_steps_of_test_breaker(2)] timer_steps_of_test_breaker(3)]
  by simp

section \<open>Proofs: admitted calls in reachable states\<close>

lemma spec_recordOutcome_shape:
  assumes "shape_invariant n c" "rollingWindow c \<noteq> []"
  shows "shape_invariant n (spec_recordOutcome out c)"
  using recordOutcome_shape [OF assms(1) recordOutcome_nonempty [OF assms(2)]] by simp


lemma Execute_reachable_admitted:
  assumes "reachable opts evs c" "state c \<noteq> Open" "rollingWindow c \<noteq> []"
    "fn w = (out, w')"
  shows "Execute fn c w =
      (spec_result out, snd (afterExecute (spec_recordOutcome out c)), w')"
    "fst (afterExecute (spec_recordOutcome out c)) = None"
proof -
  from reachable_shape [OF assms(1)]
  have inv: "shape_invariant (frames_of opts) c" .
  obtain p c' where a: "afterExecute (spec_recordOutcome out c) = (p, c')"
    by (cases "afterExecute (spec_recordOutcome out c)")
  from afterExecute_shape [OF spec_recordOutcome_shape [OF inv assms(3)] a]
  have p: "p = None" by simp
  with a show "fst (afterExecute (spec_recordOutcome out c)) = None" by simp
  from a p show "Execute fn c w =
      (spec_result out, snd (afterExecute (spec_recordOutcome out c)), w')"
    by (simp add: Execute_admitted [where fn = fn and w = w, OF assms(2) assms(3) assms(4)])
qed


lemma run_elapsed_and_unshiftFrame:
  "run [FrameElapsed, MoveWindowUnshift] (one_frame_breaker [Counts_zero] Counts_zero AtSelect)
   = Some (one_frame_breaker [] Counts_zero (AfterUnshiftFrame Counts_zero))"
  by (simp add: eval_defs)

text \<open>
  C7 fails on the code. Between \<open>unshiftFrame\<close> and \<open>addFrame\<close> of a rotation the window
  of a breaker of one frame is empty, while the state is \<open>Closed\<close>. An \<open>Execute\<close> that
  falls there is admitted and makes the call (the world changes); then \<open>incrSuccess\<close>
  or \<open>incrFail\<close> indexes the last frame of the empty window. The caller of a call that
  returned \<open>nil\<close>, and the caller of a call that returned an error, get the panic of an
  index out of range; the caller of a call that panicked gets that panic in place of
  the call's own; and nothing is counted.
\<close>

theorem Execute_in_rotation_gap_panics:
  "reachable one_frame_options [FrameElapsed, MoveWindowUnshift]
     (one_frame_breaker [] Counts_zero (AfterUnshiftFrame Counts_zero)) \<and>
   canExecute (one_frame_breaker [] Counts_zero (AfterUnshiftFrame Counts_zero)) = None \<and>
   Execute (countingCall None)
     (one_frame_breaker [] Counts_zero (AfterUnshiftFrame Counts_zero)) 0 =
   (Panicked IndexOutOfRange,
    one_frame_breaker [] Counts_zero (AfterUnshiftFrame Counts_zero), 1) \<and>
   Execute (countingCall (Some errCall))
     (one_frame_breaker [] Counts_zero (AfterUnshiftFrame Counts_zero)) 0 =
   (Panicked IndexOutOfRange,
    one_frame_breaker [] Counts_zero (AfterUnshiftFrame Counts_zero), 1) \<and>
   Execute (\<lambda>w. (Panics (PanicValue ''boom''), w + 1))
     (one_frame_breaker [] Counts_zero (AfterUnshiftFrame Counts_zero)) (0::int) =
   (Panicked IndexOutOfRange,
    one_frame_breaker [] Counts_zero (AfterUnshiftFrame Counts_zero), 1)"
proof -
  have "reachable one_frame_options [FrameElapsed, MoveWindowUnshift]
     (one_frame_breaker [] Counts_zero (AfterUnshiftFrame Counts_zero))"
    by (simp add: reachable_def New_one_frame_options run_elapsed_and_unshiftFrame
        del: run.simps)
  then show ?thesis
    by (simp add: eval_defs State_distinct defaultCanTrip_small)
qed

text \<open>Where the window is not empty, \<open>Execute\<close> in a reachable state that is not \<open>Open\<close>
  hands the call's own result to the caller and counts the call once, in the newest
  frame and in the summary.\<close>

lemma Execute_returns_call_result_nonempty_window:
  assumes "reachable opts evs c" "state c \<noteq> Open" "rollingWindow c \<noteq> []"
    "fn w = (out, w')"
  shows "Execute fn c w =
      (spec_result out, snd (afterExecute (spec_recordOutcome out c)), w') \<and>
    fst (afterExecute (spec_recordOutcome out c)) = None \<and>
    recordOutcome out c = (spec_result out, spec_recordOutcome out c) \<and>
    (state c = Closed \<longrightarrow>
       summary (fst (snd (Execute fn c w))) = spec_add_outcome out (summary c) \<and>
       rollingWindow (fst (snd (Execute fn c w))) =
         butlast (rollingWindow c) @ [spec_add_outcome out (last (rollingWindow c))])"
proof -
  have "state c = Closed \<longrightarrow>
       summary (fst (snd (Execute fn c w))) = spec_add_outcome out (summary c) \<and>
       rollingWindow (fst (snd (Execute fn c w))) =
         butlast (rollingWindow c) @ [spec_add_outcome out (last (rollingWindow c))]"
    using assms(3,4)
    by (simp add: Execute_Closed go_waitHalfOpen_def spec_recordOutcome_def)
  with Execute_reachable_admitted [where fn = fn and w = w, OF assms]
    recordOutcome_nonempty [OF assms(3)]
  show ?thesis by simp
qed





section \<open>Proofs: resolution of the half-open state\<close>

lemma spec_recordOutcome_two_frames:
  "rollingWindow c = ys @ [y, x] \<Longrightarrow>
   rollingWindow (spec_recordOutcome out c) = (ys @ [y]) @ [spec_add_outcome out x]"
  by (simp add: spec_recordOutcome_def butlast_append)

lemma spec_add_outcome_difference:
  "Total (spec_add_outcome out s) - Total (spec_add_outcome out x) = Total s - Total x"
  "Fail (spec_add_outcome out s) - Fail (spec_add_outcome out x) = Fail s - Fail x"
  "Success (spec_add_outcome out s) - Success (spec_add_outcome out x) = Success s - Success x"
  by (simp_all add: spec_add_outcome_def split: outcome.splits option.splits)

text \<open>
  C3, amended. A call is admitted while \<open>HalfOpen\<close>; the window ends with the frame
  \<open>y\<close> filled before the trip and the half-open frame \<open>x\<close>. When the resolution policy
  answers \<open>Closed\<close> on the half-open frame with the call counted, the breaker becomes
  \<open>Closed\<close>, the half-open frame is taken off the window and its counts are added to
  \<open>y\<close>, and the summary keeps every count, the call's too. When the policy answers
  \<open>Open\<close> and \<open>onHalfOpenTimeout\<close> is not set, the breaker becomes \<open>Open\<close>, the
  half-open frame is taken off the window and its counts, the call's too, are taken
  off the summary, and one \<open>waitHalfOpen\<close> goroutine is started.
\<close>

theorem HalfOpen_resolution:
  assumes "state c = HalfOpen" "rollingWindow c = ys @ [y, x]" "fn w = (out, w')"
  shows
    "(fromHalfOpenToState c (spec_add_outcome out x) = Closed \<longrightarrow>
        Execute fn c w =
          (spec_result out,
           c\<lparr>state := Closed,
              rollingWindow :=
                ys @ [y\<lparr>Total := Total y + Total (spec_add_outcome out x),
                         Success := Success y + Success (spec_add_outcome out x),
                         Fail := Fail y + Fail (spec_add_outcome out x)\<rparr>],
              summary := spec_add_outcome out (summary c)\<rparr>,
           w')) \<and>
     (fromHalfOpenToState c (spec_add_outcome out x) = Open \<and> \<not> onHalfOpenTimeout c \<longrightarrow>
        Execute fn c w =
          (spec_result out,
           c\<lparr>state := Open,
              rollingWindow := ys @ [y],
              summary := (summary c)\<lparr>Total := Total (summary c) - Total x,
                                     Fail := Fail (summary c) - Fail x,
                                     Success := Success (summary c) - Success x\<rparr>,
              waitHalfOpen_started := Suc (waitHalfOpen_started c)\<rparr>,
           w'))"
proof -
  let ?c1 = "spec_recordOutcome out c"
  let ?x = "spec_add_outcome out x"
  from assms(1) have s: "state c \<noteq> Open" by simp
  from assms(2) have ne: "rollingWindow c \<noteq> []" by simp
  note e = Execute_admitted [where fn = fn and w = w, OF s ne assms(3)]
  have w1: "rollingWindow ?c1 = (ys @ [y]) @ [?x]"
    using assms(2) by (rule spec_recordOutcome_two_frames)
  have cur: "currentFrameCopy ?c1 = Inr ?x"
    using w1 by (rule currentFrameCopy_snoc)
  have closed: "afterExecute ?c1 =
      (None, c\<lparr>state := Closed,
              rollingWindow :=
                ys @ [y\<lparr>Total := Total y + Total ?x, Success := Success y + Success ?x,
                         Fail := Fail y + Fail ?x\<rparr>],
              summary := spec_add_outcome out (summary c)\<rparr>)"
    if "fromHalfOpenToState c ?x = Closed"
  proof -
    have "afterExecute ?c1 = aggregateHalfOpenFrame (?c1\<lparr>state := Closed\<rparr>)"
      using that assms(1) by (simp add: afterExecute_def cur Let_def)
    moreover have "rollingWindow (?c1\<lparr>state := Closed\<rparr>) = ys @ [y, ?x]" using w1 by simp
    note aggregateHalfOpenFrame_snoc [OF this]
    ultimately show ?thesis by (simp add: spec_recordOutcome_def)
  qed
  have opened: "afterExecute ?c1 =
      (None, c\<lparr>state := Open,
              rollingWindow := ys @ [y],
              summary := (summary c)\<lparr>Total := Total (summary c) - Total x,
                                     Fail := Fail (summary c) - Fail x,
                                     Success := Success (summary c) - Success x\<rparr>,
              waitHalfOpen_started := Suc (waitHalfOpen_started c)\<rparr>)"
    if "fromHalfOpenToState c ?x = Open" "\<not> onHalfOpenTimeout c"
  proof -
    have "rollingWindow ((go_waitHalfOpen ?c1)\<lparr>state := Open\<rparr>) = (ys @ [y]) @ [?x]"
      using w1 by (simp add: go_waitHalfOpen_def)
    note pop = popWindow_snoc [OF this]
    have "afterExecute ?c1 =
        (None, decrSummary ?x ((go_waitHalfOpen ?c1)\<lparr>state := Open, rollingWindow := ys @ [y]\<rparr>))"
      using that assms(1) by (simp add: afterExecute_def cur Let_def pop)
    then show ?thesis
      by (simp add: spec_recordOutcome_def go_waitHalfOpen_def decrSummary_def Let_def
          spec_add_outcome_difference)
  qed
  from e closed opened show ?thesis by simp
qed

lemma New_test_options_policy:
  "New (test_options @ [WithFromHalfOpenToState (Some policy)]) =
     Inr (test_breaker policy Closed False [Counts_zero, Counts_zero, Counts_zero]
            Counts_zero 0 0 0)"
  by (simp add: New_def test_options_def default_options_def go_div_def test_breaker_def
      time_Second_def numeral_3_eq_3)

lemma feed_test_calls_policy:
  "syncFeedCircuitBreakerHelper
     (test_breaker policy Closed False [Counts_zero, Counts_zero, Counts_zero] Counts_zero 0 0 0)
     (replicate 7 (Some errCall) @ replicate 4 None) =
   Inr (test_breaker policy Open False
        [Counts_zero, Counts_zero, \<lparr>Total = 11, Fail = 7, Success = 4\<rparr>]
        \<lparr>Total = 11, Fail = 7, Success = 4\<rparr> 1 0 0)"
  by (simp add: seven_failures_four_successes eval_defs defaultCanTrip_small
      defaultCanTrip_7_of_11)

lemma reachable_test_HalfOpen_policy:
  "reachable (test_options @ [WithFromHalfOpenToState (Some policy)])
     (map (\<lambda>err. Call (Returns err)) test_calls @ [TimerBegin, TimerFire, TimerEnd])
     (test_breaker policy HalfOpen False
        [Counts_zero, Counts_zero, \<lparr>Total = 11, Fail = 7, Success = 4\<rparr>, Counts_zero]
        \<lparr>Total = 11, Fail = 7, Success = 4\<rparr> 0 0 0)"
proof -
  have "reachable (test_options @ [WithFromHalfOpenToState (Some policy)])
     (map (\<lambda>err. Call (Returns err)) test_calls)
     (test_breaker policy Open False
        [Counts_zero, Counts_zero, \<lparr>Total = 11, Fail = 7, Success = 4\<rparr>]
        \<lparr>Total = 11, Fail = 7, Success = 4\<rparr> 1 0 0)"
    using run_calls_syncFeed [OF feed_test_calls_policy]
    by (simp add: reachable_def New_test_options_policy test_calls_def del: run.simps)
  from reachable_step [OF reachable_step [OF reachable_step [OF this
    timer_steps_of_test_breaker(1)] timer_steps_of_test_breaker(2)] timer_steps_of_test_breaker(3)]
  show ?thesis by simp
qed

theorem HalfOpen_resolution_witness:
  "state (test_breaker closeOnCleanProbe HalfOpen False
        [Counts_zero, Counts_zero, \<lparr>Total = 11, Fail = 7, Success = 4\<rparr>, Counts_zero]
        \<lparr>Total = 11, Fail = 7, Success = 4\<rparr> 0 0 0) = HalfOpen \<and>
   closeOnCleanProbe (spec_add_outcome (Returns None) Counts_zero) = Closed \<and>
   Execute (countingCall None)
     (test_breaker closeOnCleanProbe HalfOpen False
        [Counts_zero, Counts_zero, \<lparr>Total = 11, Fail = 7, Success = 4\<rparr>, Counts_zero]
        \<lparr>Total = 11, Fail = 7, Success = 4\<rparr> 0 0 0) 0 =
   (Returned None,
    test_breaker closeOnCleanProbe Closed False
        [Counts_zero, Counts_zero, \<lparr>Total = 12, Fail = 7, Success = 5\<rparr>]
        \<lparr>Total = 12, Fail = 7, Success = 5\<rparr> 0 0 0, 1) \<and>
   closeOnCleanProbe (spec_add_outcome (Returns (Some errCall)) Counts_zero) = Open \<and>
   Execute (countingCall (Some errCall))
     (test_breaker closeOnCleanProbe HalfOpen False
        [Counts_zero, Counts_zero, \<lparr>Total = 11, Fail = 7, Success = 4\<rparr>, Counts_zero]
        \<lparr>Total = 11, Fail = 7, Success = 4\<rparr> 0 0 0) 0 =
   (Returned (Some errCall),
    test_breaker closeOnCleanProbe Open False
        [Counts_zero, Counts_zero, \<lparr>Total = 11, Fail = 7, Success = 4\<rparr>]
        \<lparr>Total = 11, Fail = 7, Success = 4\<rparr> 1 0 0, 1)"
proof -
  let ?h = "test_breaker closeOnCleanProbe HalfOpen False
        [Counts_zero, Counts_zero, \<lparr>Total = 11, Fail = 7, Success = 4\<rparr>, Counts_zero]
        \<lparr>Total = 11, Fail = 7, Success = 4\<rparr> 0 0 0"
  have s: "state ?h = HalfOpen" by simp
  have w: "rollingWindow ?h =
      [Counts_zero, Counts_zero] @ [\<lparr>Total = 11, Fail = 7, Success = 4\<rparr>, Counts_zero]"
    by (simp add: test_breaker_def)
  have f1: "countingCall None 0 = (Returns None, 1)"
    and f2: "countingCall (Some errCall) 0 = (Returns (Some errCall), 1)"
    by (simp_all add: countingCall_def)
  have p1: "closeOnCleanProbe (spec_add_outcome (Returns None) Counts_zero) = Closed"
    and p2: "closeOnCleanProbe (spec_add_outcome (Returns (Some errCall)) Counts_zero) = Open"
    by (simp_all add: closeOnCleanProbe_def spec_add_outcome_def Counts_zero_def)
  from HalfOpen_resolution [where fn = "countingCall None" and w = 0, OF s w f1]
    HalfOpen_resolution [where fn = "countingCall (Some errCall)" and w = 0, OF s w f2]
    s p1 p2
  show ?thesis
    by (simp add: test_breaker_def spec_result_def spec_add_outcome_def Counts_zero_def)
qed

lemma reachable_test_fired_policy:
  "reachable (test_options @ [WithFromHalfOpenToState (Some policy)])
     (map (\<lambda>err. Call (Returns err)) test_calls @ [TimerBegin, TimerFire])
     (test_breaker policy HalfOpen True
        [Counts_zero, Counts_zero, \<lparr>Total = 11, Fail = 7, Success = 4\<rparr>, Counts_zero]
        \<lparr>Total = 11, Fail = 7, Success = 4\<rparr> 0 0 1)"
proof -
  have "reachable (test_options @ [WithFromHalfOpenToState (Some policy)])
     (map (\<lambda>err. Call (Returns err)) test_calls)
     (test_breaker policy Open False
        [Counts_zero, Counts_zero, \<lparr>Total = 11, Fail = 7, Success = 4\<rparr>]
        \<lparr>Total = 11, Fail = 7, Success = 4\<rparr> 1 0 0)"
    using run_calls_syncFeed [OF feed_test_calls_policy]
    by (simp add: reachable_def New_test_options_policy test_calls_def del: run.simps)
  from reachable_step [OF reachable_step [OF this
    timer_steps_of_test_breaker(1)] timer_steps_of_test_breaker(2)]
  show ?thesis by simp
qed

text \<open>
  C3 as stated fails. The test breaker with the policy \<open>closeOnCleanProbe\<close> is
  \<open>HalfOpen\<close> after the recovery wait; a probe succeeds, the policy answers \<open>Closed\<close>,
  and the breaker is \<open>Closed\<close> with a window of three frames whose last holds 12 calls
  and a summary of 12 calls: neither a single empty frame nor a zero summary. And
  while the \<open>waitHalfOpen\<close> goroutine that set \<open>HalfOpen\<close> has not yet cleared
  \<open>onHalfOpenTimeout\<close>, a probe fails, the policy answers \<open>Open\<close>, and the breaker
  stays \<open>HalfOpen\<close> with the failure counted and no goroutine started.
\<close>

theorem successful_probe_keeps_counts:
  "reachable (test_options @ [WithFromHalfOpenToState (Some closeOnCleanProbe)])
     (map (\<lambda>err. Call (Returns err)) test_calls @ [TimerBegin, TimerFire, TimerEnd])
     (test_breaker closeOnCleanProbe HalfOpen False
        [Counts_zero, Counts_zero, \<lparr>Total = 11, Fail = 7, Success = 4\<rparr>, Counts_zero]
        \<lparr>Total = 11, Fail = 7, Success = 4\<rparr> 0 0 0) \<and>
   closeOnCleanProbe \<lparr>Total = 1, Fail = 0, Success = 1\<rparr> = Closed \<and>
   Execute (countingCall None)
     (test_breaker closeOnCleanProbe HalfOpen False
        [Counts_zero, Counts_zero, \<lparr>Total = 11, Fail = 7, Success = 4\<rparr>, Counts_zero]
        \<lparr>Total = 11, Fail = 7, Success = 4\<rparr> 0 0 0) 0 =
   (Returned None,
    test_breaker closeOnCleanProbe Closed False
        [Counts_zero, Counts_zero, \<lparr>Total = 12, Fail = 7, Success = 5\<rparr>]
        \<lparr>Total = 12, Fail = 7, Success = 5\<rparr> 0 0 0, 1) \<and>
   rollingWindow (test_breaker closeOnCleanProbe Closed False
        [Counts_zero, Counts_zero, \<lparr>Total = 12, Fail = 7, Success = 5\<rparr>]
        \<lparr>Total = 12, Fail = 7, Success = 5\<rparr> 0 0 0) \<noteq> [Counts_zero] \<and>
   summary (test_breaker closeOnCleanProbe Closed False
        [Counts_zero, Counts_zero, \<lparr>Total = 12, Fail = 7, Success = 5\<rparr>]
        \<lparr>Total = 12, Fail = 7, Success = 5\<rparr> 0 0 0) \<noteq> Counts_zero \<and>
   reachable (test_options @ [WithFromHalfOpenToState (Some closeOnCleanProbe)])
     (map (\<lambda>err. Call (Returns err)) test_calls @ [TimerBegin, TimerFire])
     (test_breaker closeOnCleanProbe HalfOpen True
        [Counts_zero, Counts_zero, \<lparr>Total = 11, Fail = 7, Success = 4\<rparr>, Counts_zero]
        \<lparr>Total = 11, Fail = 7, Success = 4\<rparr> 0 0 1) \<and>
   closeOnCleanProbe \<lparr>Total = 1, Fail = 1, Success = 0\<rparr> = Open \<and>
   Execute (countingCall (Some errCall))
     (test_breaker closeOnCleanProbe HalfOpen True
        [Counts_zero, Counts_zero, \<lparr>Total = 11, Fail = 7, Success = 4\<rparr>, Counts_zero]
        \<lparr>Total = 11, Fail = 7, Success = 4\<rparr> 0 0 1) 0 =
   (Returned (Some errCall),
    test_breaker closeOnCleanProbe HalfOpen True
        [Counts_zero, Counts_zero, \<lparr>Total = 11, Fail = 7, Success = 4\<rparr>,
         \<lparr>Total = 1, Fail = 1, Success = 0\<rparr>]
        \<lparr>Total = 12, Fail = 8, Success = 4\<rparr> 0 0 1, 1)"
  using reachable_test_HalfOpen_policy [of closeOnCleanProbe]
    reachable_test_fired_policy [of closeOnCleanProbe]
  by (simp add: eval_defs closeOnCleanProbe_def)

section \<open>Proofs: length of the window and recovery timers\<close>




lemma apply_test_options:
  "apply_options test_options default_options =
     Inr \<lparr>opt_windowFrame = 10, opt_windowRoll = 30, halfOpenThreshold = 2,
          opt_fromHalfOpenToState = defaultFromHalfOpenToState, opt_canTrip = defaultCanTrip\<rparr>"
  by (simp add: test_options_def default_options_def)






text \<open>
  C9. In every reachable state at most one \<open>waitHalfOpen\<close> goroutine has still to
  fire, and exactly one while the state is \<open>Open\<close>; this holds again after any step,
  so a step that enters \<open>Open\<close> starts exactly one and starts it with none waiting; a
  call made while \<open>Open\<close> changes nothing and starts none; and when the goroutine
  fires, the state was \<open>Open\<close>, becomes \<open>HalfOpen\<close>, and none is left to fire. How long
  the goroutine waits is not part of the model.
\<close>

theorem single_recovery_timer:
  assumes "reachable opts evs c"
  shows "armed_timers c = (if state c = Open then 1 else 0) \<and>
    (step ev c = Some c' \<longrightarrow> armed_timers c' = (if state c' = Open then 1 else 0)) \<and>
    (step ev c = Some c' \<and> state c \<noteq> Open \<and> state c' = Open \<longrightarrow>
       armed_timers c = 0 \<and> armed_timers c' = 1) \<and>
    (state c = Open \<longrightarrow> step (Call out) c = Some c) \<and>
    (step TimerFire c = Some c1 \<longrightarrow>
       state c = Open \<and> state c1 = HalfOpen \<and> armed_timers c1 = 0)"
proof -
  from reachable_shape [OF assms]
  have inv: "shape_invariant (frames_of opts) c" .
  then have a: "armed_timers c = (if state c = Open then 1 else 0)"
    by (simp add: shape_invariant_def)
  have b: "armed_timers c' = (if state c' = Open then 1 else 0)" if "step ev c = Some c'"
    using step_shape [OF inv that] by (simp add: shape_invariant_def)
  have d: "step (Call out) c = Some c" if "state c = Open"
    using that
    by (simp add: Execute_def canExecute_def runDeferredAfterExecute_def afterExecute_def)
  have e: "state c = Open \<and> state c1 = HalfOpen \<and> armed_timers c1 = 0"
    if "step TimerFire c = Some c1"
  proof -
    from that have s: "0 < waitHalfOpen_sleeping c" and h: "state c1 = HalfOpen"
      by (auto simp: waitHalfOpen_fire_def addFrame_def split: if_splits)
    from s a have "state c = Open" by (auto simp: armed_timers_def split: if_splits)
    moreover from step_shape [OF inv that] h have "armed_timers c1 = 0"
      by (simp add: shape_invariant_def)
    ultimately show ?thesis using h by simp
  qed
  from a b d e show ?thesis by auto
qed

theorem single_recovery_timer_witness:
  "reachable test_options (map (\<lambda>err. Call (Returns err)) test_calls @ [TimerBegin])
     (test_breaker defaultFromHalfOpenToState Open True
        [Counts_zero, Counts_zero, \<lparr>Total = 11, Fail = 7, Success = 4\<rparr>]
        \<lparr>Total = 11, Fail = 7, Success = 4\<rparr> 0 1 0) \<and>
   armed_timers (test_breaker defaultFromHalfOpenToState Open True
        [Counts_zero, Counts_zero, \<lparr>Total = 11, Fail = 7, Success = 4\<rparr>]
        \<lparr>Total = 11, Fail = 7, Success = 4\<rparr> 0 1 0) = 1 \<and>
   step (Call (Returns None))
     (test_breaker defaultFromHalfOpenToState Open True
        [Counts_zero, Counts_zero, \<lparr>Total = 11, Fail = 7, Success = 4\<rparr>]
        \<lparr>Total = 11, Fail = 7, Success = 4\<rparr> 0 1 0) =
   Some (test_breaker defaultFromHalfOpenToState Open True
        [Counts_zero, Counts_zero, \<lparr>Total = 11, Fail = 7, Success = 4\<rparr>]
        \<lparr>Total = 11, Fail = 7, Success = 4\<rparr> 0 1 0) \<and>
   step TimerFire
     (test_breaker defaultFromHalfOpenToState Open True
        [Counts_zero, Counts_zero, \<lparr>Total = 11, Fail = 7, Success = 4\<rparr>]
        \<lparr>Total = 11, Fail = 7, Success = 4\<rparr> 0 1 0) =
   Some (test_breaker defaultFromHalfOpenToState HalfOpen True
        [Counts_zero, Counts_zero, \<lparr>Total = 11, Fail = 7, Success = 4\<rparr>, Counts_zero]
        \<lparr>Total = 11, Fail = 7, Success = 4\<rparr> 0 0 1) \<and>
   armed_timers (test_breaker defaultFromHalfOpenToState HalfOpen True
        [Counts_zero, Counts_zero, \<lparr>Total = 11, Fail = 7, Success = 4\<rparr>, Counts_zero]
        \<lparr>Total = 11, Fail = 7, Success = 4\<rparr> 0 0 1) = 0 \<and>
   reachable test_options
     (map (\<lambda>err. Call (Returns err)) test_calls @ [TimerBegin, TimerFire, TimerEnd])
     (test_breaker defaultFromHalfOpenToState HalfOpen False
        [Counts_zero, Counts_zero, \<lparr>Total = 11, Fail = 7, Success = 4\<rparr>, Counts_zero]
        \<lparr>Total = 11, Fail = 7, Success = 4\<rparr> 0 0 0) \<and>
   step (Call (Returns (Some errCall)))
     (test_breaker defaultFromHalfOpenToState HalfOpen False
        [Counts_zero, Counts_zero, \<lparr>Total = 11, Fail = 7, Success = 4\<rparr>, Counts_zero]
        \<lparr>Total = 11, Fail = 7, Success = 4\<rparr> 0 0 0) =
   Some (test_breaker defaultFromHalfOpenToState Open False
        [Counts_zero, Counts_zero, \<lparr>Total = 11, Fail = 7, Success = 4\<rparr>]
        \<lparr>Total = 11, Fail = 7, Success = 4\<rparr> 1 0 0) \<and>
   armed_timers (test_breaker defaultFromHalfOpenToState Open False
        [Counts_zero, Counts_zero, \<lparr>Total = 11, Fail = 7, Success = 4\<rparr>]
        \<lparr>Total = 11, Fail = 7, Success = 4\<rparr> 1 0 0) = 1"
proof -
  let ?o = "test_breaker defaultFromHalfOpenToState Open True
        [Counts_zero, Counts_zero, \<lparr>Total = 11, Fail = 7, Success = 4\<rparr>]
        \<lparr>Total = 11, Fail = 7, Success = 4\<rparr> 0 1 0"
  let ?h = "test_breaker defaultFromHalfOpenToState HalfOpen False
        [Counts_zero, Counts_zero, \<lparr>Total = 11, Fail = 7, Success = 4\<rparr>, Counts_zero]
        \<lparr>Total = 11, Fail = 7, Success = 4\<rparr> 0 0 0"
  have r: "reachable test_options (map (\<lambda>err. Call (Returns err)) test_calls @ [TimerBegin]) ?o"
    using reachable_step [OF reachable_test_calls timer_steps_of_test_breaker(1)] by simp
  have f: "step TimerFire ?o =
      Some (test_breaker defaultFromHalfOpenToState HalfOpen True
        [Counts_zero, Counts_zero, \<lparr>Total = 11, Fail = 7, Success = 4\<rparr>, Counts_zero]
        \<lparr>Total = 11, Fail = 7, Success = 4\<rparr> 0 0 1)"
    using timer_steps_of_test_breaker(2) [of defaultFromHalfOpenToState
        "[Counts_zero, Counts_zero, \<lparr>Total = 11, Fail = 7, Success = 4\<rparr>]"]
    by simp
  have e: "step (Call (Returns (Some errCall))) ?h =
      Some (test_breaker defaultFromHalfOpenToState Open False
        [Counts_zero, Counts_zero, \<lparr>Total = 11, Fail = 7, Success = 4\<rparr>]
        \<lparr>Total = 11, Fail = 7, Success = 4\<rparr> 1 0 0)"
    by (simp add: eval_defs defaultFromHalfOpenToState_def)
  from single_recovery_timer [OF r, of TimerFire _ "Returns None"]
    single_recovery_timer [OF reachable_test_HalfOpen, of "Call (Returns (Some errCall))"]
    r f e reachable_test_HalfOpen
  show ?thesis
    by (simp del: step.simps)
qed

end
